theory Spec2Isabelle
  imports Main
begin

section \<open>Data model (src/page-object-generator/types.ts)\<close>

text \<open>
  A JavaScript string is modelled as a \<open>string\<close>: one \<open>char\<close> stands for one UTF-16 code
  unit in the range U+0000..U+00FF, so \<open>length\<close> is the source's \<open>.length\<close> on such strings.
  A field of type \<open>string | null\<close> is a \<open>string option\<close>.

  Field names of \<open>ElementInfo\<close> that clash with Isabelle keywords, with HOL constants or with the
  fields of \<open>AnalyzedElement\<close> carry a suffix: \<open>text_content\<close> is \<open>text\<close>, \<open>name_attr\<close> is \<open>name\<close>,
  \<open>id_attr\<close> is \<open>id\<close>, \<open>type_attr\<close> is \<open>type\<close>.
\<close>

record ElementInfo =
  tagName :: string
  role :: "string option"
  label :: "string option"
  text_content :: "string option"
  placeholder :: "string option"
  name_attr :: "string option"
  id_attr :: "string option"
  className :: "string option"
  type_attr :: "string option"
  ariaLabel :: "string option"
  testId :: "string option"

datatype LocatorType = GetByRole | GetByLabel | GetByText | GetByPlaceholder | GetByTestId | Locator

datatype ElementType = Button | Input | Link | Select | Checkbox | Radio | Textarea | Heading | Other

record AnalyzedElement =
  name :: string
  locatorCode :: string
  locatorType :: LocatorType
  elementType :: ElementType
  originalInfo :: ElementInfo


record NamingRules =
  maxTextLength :: nat
  suffixes :: "ElementType \<Rightarrow> string"
  useCamelCase :: bool

record IgnoreRules =
  ignoreClasses :: "string list"
  ignoreIds :: "string list"
  ignoreRoles :: "string list"

record TemplateOptions =
  generateHelperMethods :: bool
  includeGotoMethod :: bool

record GeneratorConfig =
  locatorPriority :: "LocatorType list"
  namingRules :: NamingRules
  ignoreRules :: IgnoreRules
  templateOptions :: TemplateOptions

fun default_suffixes :: "ElementType \<Rightarrow> string" where
  "default_suffixes Button = ''Button''"
| "default_suffixes Input = ''Input''"
| "default_suffixes Link = ''Link''"
| "default_suffixes Select = ''Select''"
| "default_suffixes Checkbox = ''Checkbox''"
| "default_suffixes Radio = ''Radio''"
| "default_suffixes Textarea = ''Textarea''"
| "default_suffixes Heading = ''Heading''"
| "default_suffixes Other = ''Element''"

definition DEFAULT_CONFIG :: GeneratorConfig where
  "DEFAULT_CONFIG =
     \<lparr> locatorPriority = [GetByRole, GetByLabel, GetByPlaceholder, GetByTestId, GetByText, Locator],
       namingRules = \<lparr> maxTextLength = 30, suffixes = default_suffixes, useCamelCase = True \<rparr>,
       ignoreRules = \<lparr> ignoreClasses = [], ignoreIds = [], ignoreRoles = [] \<rparr>,
       templateOptions = \<lparr> generateHelperMethods = True, includeGotoMethod = True \<rparr> \<rparr>"

text \<open>The string a value of the union type \<open>ElementType\<close> is at run time.\<close>

fun elementTypeStr :: "ElementType \<Rightarrow> string" where
  "elementTypeStr Button = ''button''"
| "elementTypeStr Input = ''input''"
| "elementTypeStr Link = ''link''"
| "elementTypeStr Select = ''select''"
| "elementTypeStr Checkbox = ''checkbox''"
| "elementTypeStr Radio = ''radio''"
| "elementTypeStr Textarea = ''textarea''"
| "elementTypeStr Heading = ''heading''"
| "elementTypeStr Other = ''other''"

section \<open>JavaScript string primitives used by the generator\<close>

abbreviation sq :: char where "sq \<equiv> CHR 0x27"
abbreviation bslash :: char where "bslash \<equiv> CHR 0x5C"
abbreviation dq :: char where "dq \<equiv> CHR 0x22"
abbreviation nl :: char where "nl \<equiv> CHR 0x0A"
abbreviation sp :: char where "sp \<equiv> CHR 0x20"

text \<open>
  \<open>truthy\<close> is JavaScript's truthiness of a \<open>string | null\<close>: \<open>null\<close> and the empty string are
  falsy, every other string is truthy.
\<close>

fun truthy :: "string option \<Rightarrow> bool" where
  "truthy None = False"
| "truthy (Some s) = (s \<noteq> [])"

text \<open>
  The characters matched by \<open>\s\<close> and stripped by \<open>trim()\<close> (ECMAScript WhiteSpace and
  LineTerminator) among the code units up to U+00FF: TAB, LF, VT, FF, CR, SPACE, NBSP.
\<close>

definition isWhiteSpace :: "char \<Rightarrow> bool" where
  "isWhiteSpace c = (c = CHR 0x09 \<or> c = CHR 0x0A \<or> c = CHR 0x0B \<or> c = CHR 0x0C \<or> c = CHR 0x0D
                      \<or> c = CHR 0x20 \<or> c = CHR 0xA0)"

definition trim :: "string \<Rightarrow> string" where
  "trim s = rev (dropWhile isWhiteSpace (rev (dropWhile isWhiteSpace s)))"

text \<open>\<open>str.replace(/'/g, "\\'")\<close>: every single quote becomes backslash, single quote.\<close>

fun replaceQuotes :: "string \<Rightarrow> string" where
  "replaceQuotes [] = []"
| "replaceQuotes (c # cs) = (if c = sq then bslash # sq # replaceQuotes cs else c # replaceQuotes cs)"

text \<open>\<open>str.replace(/\n/g, ' ')\<close>: every line feed becomes one space.\<close>

definition replaceNewlines :: "string \<Rightarrow> string" where
  "replaceNewlines s = map (\<lambda>c. if c = nl then sp else c) s"

text \<open>\<open>escapeString\<close> (generator.ts, lines 422-424).\<close>

definition escapeString :: "string \<Rightarrow> string" where
  "escapeString str = trim (replaceNewlines (replaceQuotes str))"

text \<open>
  \<open>precededOK p xs\<close>: walking \<open>xs\<close> with \<open>p\<close> the character before it, every single quote
  comes directly after a backslash.
\<close>

fun precededOK :: "char \<Rightarrow> string \<Rightarrow> bool" where
  "precededOK p [] = True"
| "precededOK p (c # cs) = ((c = sq \<longrightarrow> p = bslash) \<and> precededOK c cs)"

section \<open>Locator resolution (generator.ts, lines 262-375)\<close>

text \<open>The value of a \<open>string | null\<close> once it is known to be truthy.\<close>

fun strOf :: "string option \<Rightarrow> string" where
  "strOf None = []"
| "strOf (Some s) = s"

text \<open>\<open>roleMap\<close> of \<open>generateLocator\<close>; \<open>other\<close> maps to the empty (falsy) string.\<close>

fun roleMap :: "ElementType \<Rightarrow> string" where
  "roleMap Button = ''button''"
| "roleMap Link = ''link''"
| "roleMap Input = ''textbox''"
| "roleMap Select = ''combobox''"
| "roleMap Checkbox = ''checkbox''"
| "roleMap Radio = ''radio''"
| "roleMap Textarea = ''textbox''"
| "roleMap Heading = ''heading''"
| "roleMap Other = []"

text \<open>The template literal \<open>getByRole('${role}', { name: '${nm}' })\<close>.\<close>

definition getByRoleCode :: "string \<Rightarrow> string \<Rightarrow> string" where
  "getByRoleCode r nm = ''getByRole('' @ [sq] @ r @ [sq] @ '', { name: '' @ [sq] @ nm @ [sq] @ '' })''"

text \<open>The template literal \<open>f('${arg}')\<close> for \<open>getByLabel\<close>, \<open>getByPlaceholder\<close>, \<open>getByTestId\<close>,
  \<open>getByText\<close> and \<open>locator\<close>.\<close>

definition callCode :: "string \<Rightarrow> string \<Rightarrow> string" where
  "callCode f arg = f @ ''('' @ [sq] @ arg @ [sq] @ '')''"

text \<open>
  \<open>tryGenerateLocator\<close>: the object \<open>{ locatorCode, locatorType }\<close> is a pair, \<open>null\<close> is \<open>None\<close>.
  \<open>info.text.substring(0, 50)\<close> is \<open>take 50\<close>; \<open>info.className.split(' ')[0]\<close> is the part
  of the class string before its first space.
\<close>

fun tryGenerateLocator ::
  "ElementInfo \<Rightarrow> ElementType \<Rightarrow> string \<Rightarrow> LocatorType \<Rightarrow> (string \<times> LocatorType) option" where
  "tryGenerateLocator info elType rl GetByRole =
     (if rl \<noteq> [] \<and> truthy (ariaLabel info)
      then Some (getByRoleCode rl (escapeString (strOf (ariaLabel info))), GetByRole)
      else if rl \<noteq> [] \<and> truthy (text_content info) \<and> elType \<in> {Button, Link, Heading}
      then Some (getByRoleCode rl (escapeString (take 50 (strOf (text_content info)))), GetByRole)
      else None)"
| "tryGenerateLocator info elType rl GetByLabel =
     (if truthy (label info)
      then Some (callCode ''getByLabel'' (escapeString (strOf (label info))), GetByLabel)
      else None)"
| "tryGenerateLocator info elType rl GetByPlaceholder =
     (if truthy (placeholder info)
      then Some (callCode ''getByPlaceholder'' (escapeString (strOf (placeholder info))), GetByPlaceholder)
      else None)"
| "tryGenerateLocator info elType rl GetByTestId =
     (if truthy (testId info)
      then Some (callCode ''getByTestId'' (escapeString (strOf (testId info))), GetByTestId)
      else None)"
| "tryGenerateLocator info elType rl GetByText =
     (if truthy (text_content info) \<and> length (strOf (text_content info)) \<le> 50
      then Some (callCode ''getByText'' (escapeString (strOf (text_content info))), GetByText)
      else None)"
| "tryGenerateLocator info elType rl Locator =
     (if truthy (id_attr info)
      then Some (callCode ''locator'' (''#'' @ escapeString (strOf (id_attr info))), Locator)
      else if truthy (name_attr info)
      then Some (callCode ''locator''
                  (''[name='' @ [dq] @ escapeString (strOf (name_attr info)) @ [dq] @ '']''), Locator)
      else if truthy (className info)
      then Some (callCode ''locator''
                  (''.'' @ escapeString (takeWhile (\<lambda>c. c \<noteq> sp) (strOf (className info)))), Locator)
      else None)"

text \<open>The \<open>for\<close> loop of \<open>generateLocator\<close>: the first strategy of the list that yields a
  result.\<close>

fun firstLocator ::
  "ElementInfo \<Rightarrow> ElementType \<Rightarrow> string \<Rightarrow> LocatorType list \<Rightarrow> (string \<times> LocatorType) option" where
  "firstLocator info elType rl [] = None"
| "firstLocator info elType rl (lt # lts) =
     (case tryGenerateLocator info elType rl lt of
        Some result \<Rightarrow> Some result
      | None \<Rightarrow> firstLocator info elType rl lts)"

definition generateLocator ::
  "GeneratorConfig \<Rightarrow> ElementInfo \<Rightarrow> ElementType \<Rightarrow> string \<times> LocatorType" where
  "generateLocator cfg info elType =
     (case firstLocator info elType (roleMap elType) (locatorPriority cfg) of
        Some result \<Rightarrow> result
      | None \<Rightarrow> (callCode ''locator'' (tagName info), Locator))"

section \<open>Name resolution (generator.ts, lines 377-420)\<close>

definition isAlnum :: "char \<Rightarrow> bool" where
  "isAlnum c = (let n = (of_char c :: nat) in
                  (97 \<le> n \<and> n \<le> 122) \<or> (65 \<le> n \<and> n \<le> 90) \<or> (48 \<le> n \<and> n \<le> 57))"

text \<open>
  \<open>toLowerCase\<close> and \<open>toUpperCase\<close> on one code unit. The generator applies them only to
  words of \<open>toCamelCase\<close>, which hold ASCII letters and digits only; there they change
  exactly \<open>A-Z\<close> and \<open>a-z\<close>.
\<close>

definition toLowerChar :: "char \<Rightarrow> char" where
  "toLowerChar c = (let n = (of_char c :: nat) in if 65 \<le> n \<and> n \<le> 90 then char_of (n + 32) else c)"

definition toUpperChar :: "char \<Rightarrow> char" where
  "toUpperChar c = (let n = (of_char c :: nat) in if 97 \<le> n \<and> n \<le> 122 then char_of (n - 32) else c)"

text \<open>\<open>split(/\s+/)\<close>: the pieces between maximal runs of white space; a separator at the
  start or the end of the string leaves an empty piece there, as in JavaScript.\<close>

function splitWs :: "string \<Rightarrow> string list" where
  "splitWs s =
     (case dropWhile (\<lambda>c. \<not> isWhiteSpace c) s of
        [] \<Rightarrow> [s]
      | c # r \<Rightarrow> takeWhile (\<lambda>c. \<not> isWhiteSpace c) s # splitWs (dropWhile isWhiteSpace r))"
  by pat_completeness auto
termination
proof (relation "measure length")
  show "wf (measure length)" by simp
next
  fix s :: string and c r
  assume "dropWhile (\<lambda>c. \<not> isWhiteSpace c) s = c # r"
  then have "Suc (length r) = length (dropWhile (\<lambda>c. \<not> isWhiteSpace c) s)" by simp
  also have "\<dots> \<le> length s" by (rule length_dropWhile_le)
  finally have "length r < length s" by simp
  moreover have "length (dropWhile isWhiteSpace r) \<le> length r" by (rule length_dropWhile_le)
  ultimately show "(dropWhile isWhiteSpace r, s) \<in> measure length" by simp
qed

declare splitWs.simps [simp del]

text \<open>\<open>lower.charAt(0).toUpperCase() + lower.slice(1)\<close>.\<close>

fun capitalize :: "string \<Rightarrow> string" where
  "capitalize [] = []"
| "capitalize (c # cs) = toUpperChar c # cs"

text \<open>The \<open>map((word, index) => ...)\<close> followed by \<open>join('')\<close>: the first word lowercased, every
  later word lowercased and then capitalised.\<close>

fun camelJoin :: "string list \<Rightarrow> string" where
  "camelJoin [] = []"
| "camelJoin (w # ws) = map toLowerChar w @ concat (map (\<lambda>v. capitalize (map toLowerChar v)) ws)"

definition toCamelCase :: "string \<Rightarrow> string" where
  "toCamelCase str =
     camelJoin (filter (\<lambda>w. w \<noteq> [])
       (splitWs (map (\<lambda>c. if isAlnum c \<or> isWhiteSpace c then c else sp) str)))"


definition generateElementName :: "GeneratorConfig \<Rightarrow> ElementInfo \<Rightarrow> ElementType \<Rightarrow> string" where
  "generateElementName cfg info elType =
     (let maxLength = maxTextLength (namingRules cfg);
          baseName =
            (if truthy (ariaLabel info) then strOf (ariaLabel info)
             else if truthy (label info) then strOf (label info)
             else if truthy (placeholder info) then strOf (placeholder info)
             else if truthy (text_content info) \<and> length (strOf (text_content info)) \<le> maxLength
               then strOf (text_content info)
             else if truthy (name_attr info) then strOf (name_attr info)
             else if truthy (id_attr info) then strOf (id_attr info)
             else if truthy (testId info) then strOf (testId info)
             else ''unnamed'' @ elementTypeStr elType);
          processedName = (if useCamelCase (namingRules cfg) then toCamelCase baseName else baseName);
          suffix = (if suffixes (namingRules cfg) elType \<noteq> [] then suffixes (namingRules cfg) elType
                    else ''Element'')
      in processedName @ suffix)"


section \<open>JavaScript \<open>Map\<close> with string keys\<close>

text \<open>
  A \<open>Map\<close> is the list of its entries in insertion order, with at most one entry per key.
  \<open>set\<close> on a key that is present replaces the value and keeps the entry's position; on a
  new key it appends the entry. \<open>new Map(entries)\<close> sets the entries from left to right.
\<close>

type_synonym 'v jsmap = "(string \<times> 'v) list"

definition mapHas :: "'v jsmap \<Rightarrow> string \<Rightarrow> bool" where
  "mapHas m k = (k \<in> set (map fst m))"

definition mapGet :: "'v jsmap \<Rightarrow> string \<Rightarrow> 'v option" where
  "mapGet m k = map_of m k"

fun mapSet :: "'v jsmap \<Rightarrow> string \<Rightarrow> 'v \<Rightarrow> 'v jsmap" where
  "mapSet [] k v = [(k, v)]"
| "mapSet ((k', v') # m) k v = (if k' = k then (k, v) # m else (k', v') # mapSet m k v)"

definition newMap :: "(string \<times> 'v) list \<Rightarrow> 'v jsmap" where
  "newMap entries = foldl (\<lambda>m (k, v). mapSet m k v) [] entries"

definition mapValues :: "'v jsmap \<Rightarrow> 'v list" where
  "mapValues m = map snd m"

section \<open>Deduplication (generator.ts, lines 538-554)\<close>

text \<open>The decimal numeral of a counter, as the template literal \<open>${counter}\<close> prints it. The
  counter is a \<open>nat\<close>; the source's number is exact up to \<open>2^53\<close>, far beyond the length of
  any batch.\<close>

fun showNat :: "nat \<Rightarrow> string" where
  "showNat n = (if n < 10 then [char_of (48 + n)] else showNat (n div 10) @ [char_of (48 + n mod 10)])"

declare showNat.simps [simp del]

text \<open>
  The \<open>while (seen.has(newName))\<close> loop, entered with \<open>counter\<close>: it returns the first
  candidate \<open>name + counter\<close> that is not a key of \<open>seen\<close>. The loop has no syntactic bound,
  so \<open>None\<close> stands for a run that never leaves it.
\<close>

partial_function (option) probeName :: "AnalyzedElement jsmap \<Rightarrow> string \<Rightarrow> nat \<Rightarrow> string option" where
  "probeName seen nm counter =
     (if mapHas seen (nm @ showNat counter) then probeName seen nm (counter + 1)
      else Some (nm @ showNat counter))"

declare probeName.simps [code]

text \<open>The body of the \<open>for\<close> loop over the elements, threading the map \<open>seen\<close>.\<close>

fun dedupLoop :: "AnalyzedElement jsmap \<Rightarrow> AnalyzedElement list \<Rightarrow> AnalyzedElement jsmap option" where
  "dedupLoop seen [] = Some seen"
| "dedupLoop seen (element # rest) =
     (if \<not> mapHas seen (name element) then dedupLoop (mapSet seen (name element) element) rest
      else case probeName seen (name element) 2 of
             None \<Rightarrow> None
           | Some newName \<Rightarrow> dedupLoop (mapSet seen newName (element\<lparr>name := newName\<rparr>)) rest)"

definition deduplicateElements :: "AnalyzedElement list \<Rightarrow> AnalyzedElement list option" where
  "deduplicateElements elements = map_option mapValues (dedupLoop [] elements)"

section \<open>Metadata diff (diff.ts)\<close>

record PageObjectMetadata =
  url :: string
  pageName :: string
  generatedAt :: string
  elementCount :: nat
  elements :: "AnalyzedElement list"
  screenshotPath :: "string option"
  config :: "GeneratorConfig option"

record DiffResult =
  added :: "AnalyzedElement list"
  removed :: "AnalyzedElement list"
  modified :: "(AnalyzedElement \<times> AnalyzedElement) list"
  unchanged :: "AnalyzedElement list"

text \<open>The first loop of \<open>compare\<close>, over the entries of \<open>newElements\<close>; a modified pair is
  \<open>(old, new)\<close>. \<open>push\<close> appends at the end.\<close>

fun compareNewLoop :: "AnalyzedElement jsmap \<Rightarrow> AnalyzedElement jsmap \<Rightarrow> DiffResult \<Rightarrow> DiffResult" where
  "compareNewLoop oldElements [] d = d"
| "compareNewLoop oldElements ((nm, newEl) # rest) d =
     compareNewLoop oldElements rest
       (case mapGet oldElements nm of
          None \<Rightarrow> d\<lparr>added := added d @ [newEl]\<rparr>
        | Some oldEl \<Rightarrow>
            if locatorCode oldEl \<noteq> locatorCode newEl
            then d\<lparr>modified := modified d @ [(oldEl, newEl)]\<rparr>
            else d\<lparr>unchanged := unchanged d @ [newEl]\<rparr>)"

text \<open>The second loop, over the entries of \<open>oldElements\<close>.\<close>

fun compareOldLoop :: "AnalyzedElement jsmap \<Rightarrow> AnalyzedElement jsmap \<Rightarrow> DiffResult \<Rightarrow> DiffResult" where
  "compareOldLoop newElements [] d = d"
| "compareOldLoop newElements ((nm, oldEl) # rest) d =
     compareOldLoop newElements rest
       (if \<not> mapHas newElements nm then d\<lparr>removed := removed d @ [oldEl]\<rparr> else d)"

definition compare :: "PageObjectMetadata \<Rightarrow> PageObjectMetadata \<Rightarrow> DiffResult" where
  "compare oldMetadata newMetadata =
     (let oldElements = newMap (map (\<lambda>e. (name e, e)) (elements oldMetadata));
          newElements = newMap (map (\<lambda>e. (name e, e)) (elements newMetadata));
          d0 = \<lparr> added = [], removed = [], modified = [], unchanged = [] \<rparr>
      in compareOldLoop newElements oldElements (compareNewLoop oldElements newElements d0))"

definition hasChanges :: "DiffResult \<Rightarrow> bool" where
  "hasChanges diff = (length (added diff) > 0 \<or> length (removed diff) > 0 \<or> length (modified diff) > 0)"

text \<open>The identifiers a diff puts in each bucket; a modified pair holds the same identifier
  twice, and its old element is taken.\<close>

definition addedIds :: "DiffResult \<Rightarrow> string list" where
  "addedIds d = map name (added d)"

definition removedIds :: "DiffResult \<Rightarrow> string list" where
  "removedIds d = map name (removed d)"

definition modifiedIds :: "DiffResult \<Rightarrow> string list" where
  "modifiedIds d = map (\<lambda>p. name (fst p)) (modified d)"

definition unchangedIds :: "DiffResult \<Rightarrow> string list" where
  "unchangedIds d = map name (unchanged d)"

section \<open>Code synthesis (generator.ts, lines 105-117 and 426-536)\<close>



















section \<open>Page analysis and the public entry point (generator.ts, lines 76-98 and 119-220)\<close>








section \<open>Auxiliary notions for the proofs\<close>

text \<open>The entries \<open>[e.name, e]\<close> that \<open>compare\<close> builds its maps from, and the map of a batch.\<close>

abbreviation entriesOf :: "AnalyzedElement list \<Rightarrow> (string \<times> AnalyzedElement) list" where
  "entriesOf xs \<equiv> map (\<lambda>e. (name e, e)) xs"

abbreviation mapOfBatch :: "PageObjectMetadata \<Rightarrow> AnalyzedElement jsmap" where
  "mapOfBatch A \<equiv> newMap (entriesOf (elements A))"

text \<open>
  The element a batch holds under an identifier: the map built from a batch keeps, for a
  repeated identifier, the last element that bears it; in a batch with unique identifiers
  it is the only one.
\<close>

definition elementNamed :: "string \<Rightarrow> AnalyzedElement list \<Rightarrow> AnalyzedElement" where
  "elementNamed n xs = last (filter (\<lambda>e. name e = n) xs)"

text \<open>The three branches of the first loop of \<open>compare\<close>, as tests on one entry of the new
  map.\<close>

definition isAdded :: "AnalyzedElement jsmap \<Rightarrow> string \<times> AnalyzedElement \<Rightarrow> bool" where
  "isAdded o' kv = (map_of o' (fst kv) = None)"

definition modPairs ::
  "AnalyzedElement jsmap \<Rightarrow> string \<times> AnalyzedElement \<Rightarrow> (AnalyzedElement \<times> AnalyzedElement) list" where
  "modPairs o' kv =
     (case map_of o' (fst kv) of
        None \<Rightarrow> []
      | Some oe \<Rightarrow> if locatorCode oe \<noteq> locatorCode (snd kv) then [(oe, snd kv)] else [])"

definition isUnchanged :: "AnalyzedElement jsmap \<Rightarrow> string \<times> AnalyzedElement \<Rightarrow> bool" where
  "isUnchanged o' kv =
     (case map_of o' (fst kv) of
        None \<Rightarrow> False
      | Some oe \<Rightarrow> locatorCode oe = locatorCode (snd kv))"

text \<open>Reading a decimal numeral back, the inverse of \<open>showNat\<close>.\<close>

definition readNat :: "string \<Rightarrow> nat" where
  "readNat s = foldl (\<lambda>a c. 10 * a + (of_char c - 48)) 0 s"

text \<open>
  \<open>renameOK prev n k\<close>: \<open>k\<close> is the identifier deduplication gives to an element named \<open>n\<close>
  when \<open>prev\<close> are the identifiers emitted before it: \<open>n\<close> itself if it is free, otherwise
  \<open>n\<close> followed by the least counter from 2 on whose candidate is free.
\<close>

definition renameOK :: "string set \<Rightarrow> string \<Rightarrow> string \<Rightarrow> bool" where
  "renameOK prev n k \<longleftrightarrow>
     (n \<notin> prev \<longrightarrow> k = n) \<and>
     (n \<in> prev \<longrightarrow> (\<exists>c\<ge>2. k = n @ showNat c \<and> (\<forall>j. 2 \<le> j \<and> j < c \<longrightarrow> n @ showNat j \<in> prev)))"

text \<open>
  \<open>hasUnescapedQuote xs\<close>: read as the body of a single-quoted JavaScript string literal,
  \<open>xs\<close> holds a single quote that no escape covers. A backslash forms an escape with the
  character after it, so a quote is escaped only after an odd run of backslashes.
\<close>

fun hasUnescapedQuote :: "string \<Rightarrow> bool" where
  "hasUnescapedQuote [] = False"
| "hasUnescapedQuote [c] = (c = sq)"
| "hasUnescapedQuote (c # d # cs) =
     (if c = bslash then hasUnescapedQuote cs else c = sq \<or> hasUnescapedQuote (d # cs))"

text \<open>\<open>wellEscaped xs\<close>: every backslash of \<open>xs\<close> is followed by a single quote, and every single
  quote follows such a backslash.\<close>

fun wellEscaped :: "string \<Rightarrow> bool" where
  "wellEscaped [] = True"
| "wellEscaped [c] = (c \<noteq> sq \<and> c \<noteq> bslash)"
| "wellEscaped (c # d # cs) =
     (if c = bslash then d = sq \<and> wellEscaped cs else c \<noteq> sq \<and> wellEscaped (d # cs))"

section \<open>Concrete inputs\<close>

definition nullInfo :: ElementInfo where
  "nullInfo = \<lparr> tagName = ''div'', role = None, label = None, text_content = None,
                placeholder = None, name_attr = None, id_attr = None, className = None,
                type_attr = None, ariaLabel = None, testId = None \<rparr>"

definition loginInfo :: "string \<Rightarrow> ElementInfo" where
  "loginInfo t = \<lparr> tagName = t, role = Some ''button'', label = None, text_content = None,
                   placeholder = None, name_attr = None, id_attr = None, className = None,
                   type_attr = None, ariaLabel = Some ''Log in'', testId = None \<rparr>"

definition longTextInfo :: ElementInfo where
  "longTextInfo = \<lparr> tagName = ''button'', role = None, label = None,
                    text_content = Some (replicate 51 CHR ''a''),
                    placeholder = None, name_attr = None, id_attr = None, className = None,
                    type_attr = None, ariaLabel = None, testId = None \<rparr>"

definition mkElement :: "string \<Rightarrow> string \<Rightarrow> LocatorType \<Rightarrow> ElementType \<Rightarrow> AnalyzedElement" where
  "mkElement n code lt et =
     \<lparr> name = n, locatorCode = code, locatorType = lt, elementType = et, originalInfo = nullInfo \<rparr>"

definition mkMetadata :: "AnalyzedElement list \<Rightarrow> PageObjectMetadata" where
  "mkMetadata els =
     \<lparr> url = ''https://example.com'', pageName = ''Login'', generatedAt = ''2024-01-01T00:00:00.000Z'',
       elementCount = length els, elements = els, screenshotPath = None, config = None \<rparr>"

definition oldBatch :: PageObjectMetadata where
  "oldBatch = mkMetadata
     [mkElement ''emailInput'' ''getByLabel(A)'' GetByLabel Input,
      mkElement ''submitButton'' ''getByText(S)'' GetByRole Button,
      mkElement ''legacyLink'' ''getByText(L)'' GetByText Link]"

definition newBatch :: PageObjectMetadata where
  "newBatch = mkMetadata
     [mkElement ''emailInput'' ''getByLabel(B)'' GetByLabel Input,
      mkElement ''submitButton'' ''getByText(S)'' GetByText Link,
      mkElement ''phoneInput'' ''getByLabel(C)'' GetByLabel Input]"

definition dupBatch :: "AnalyzedElement list" where
  "dupBatch =
     [mkElement ''submitButton'' ''getByText(S)'' GetByText Button,
      mkElement ''submitButton'' ''getByText(T)'' GetByText Button,
      mkElement ''submitButton2'' ''getByText(U)'' GetByText Button]"



section \<open>Escaping\<close>

lemma precededOK_nth:
  "precededOK p xs \<longleftrightarrow>
     (\<forall>i < length xs. xs ! i = sq \<longrightarrow> (if i = 0 then p = bslash else xs ! (i - 1) = bslash))"
proof (induction xs arbitrary: p)
  case Nil
  show ?case by simp
next
  case (Cons c cs)
  show ?case
  proof
    assume a: "precededOK p (c # cs)"
    show "\<forall>i < length (c # cs). (c # cs) ! i = sq \<longrightarrow>
            (if i = 0 then p = bslash else (c # cs) ! (i - 1) = bslash)"
    proof (intro allI impI)
      fix i assume i: "i < length (c # cs)" and q: "(c # cs) ! i = sq"
      show "if i = 0 then p = bslash else (c # cs) ! (i - 1) = bslash"
      proof (cases i)
        case 0
        with a q show ?thesis by simp
      next
        case (Suc j)
        from a have "precededOK c cs" by simp
        with Cons.IH[of c] have
          h: "\<forall>k < length cs. cs ! k = sq \<longrightarrow> (if k = 0 then c = bslash else cs ! (k - 1) = bslash)"
          by simp
        from i q Suc have "j < length cs" "cs ! j = sq" by simp_all
        with h have "if j = 0 then c = bslash else cs ! (j - 1) = bslash" by blast
        with Suc show ?thesis by (cases j) simp_all
      qed
    qed
  next
    assume a: "\<forall>i < length (c # cs). (c # cs) ! i = sq \<longrightarrow>
            (if i = 0 then p = bslash else (c # cs) ! (i - 1) = bslash)"
    have h0: "c = sq \<longrightarrow> p = bslash" using a[rule_format, of 0] by simp
    have "\<forall>k < length cs. cs ! k = sq \<longrightarrow> (if k = 0 then c = bslash else cs ! (k - 1) = bslash)"
    proof (intro allI impI)
      fix k assume k: "k < length cs" and q: "cs ! k = sq"
      from a[rule_format, of "Suc k"] k q
      have "(c # cs) ! k = bslash" by simp
      then show "if k = 0 then c = bslash else cs ! (k - 1) = bslash"
        by (cases k) simp_all
    qed
    with Cons.IH[of c] have "precededOK c cs" by simp
    with h0 show "precededOK p (c # cs)" by simp
  qed
qed

lemma precededOK_replaceQuotes: "precededOK p (replaceQuotes s)"
  by (induction s arbitrary: p) simp_all

lemma precededOK_replaceNewlines:
  "precededOK p xs \<Longrightarrow> precededOK (if p = nl then sp else p) (replaceNewlines xs)"
  unfolding replaceNewlines_def
  by (induction xs arbitrary: p) (auto split: if_splits)

lemma precededOK_change_prev:
  "precededOK w xs \<Longrightarrow> w \<noteq> bslash \<Longrightarrow> precededOK q xs"
  by (cases xs) auto

lemma precededOK_dropWhile:
  "precededOK p xs \<Longrightarrow> p \<noteq> bslash \<Longrightarrow> precededOK p (dropWhile isWhiteSpace xs)"
proof (induction xs arbitrary: p)
  case Nil
  then show ?case by simp
next
  case (Cons c cs)
  show ?case
  proof (cases "isWhiteSpace c")
    case True
    then have cb: "c \<noteq> bslash" by (auto simp: isWhiteSpace_def)
    from Cons.prems have "precededOK c cs" by simp
    from Cons.IH[OF this cb] have "precededOK c (dropWhile isWhiteSpace cs)" .
    from precededOK_change_prev[OF this cb] True show ?thesis by simp
  next
    case False
    with Cons.prems show ?thesis by simp
  qed
qed

lemma precededOK_append_left: "precededOK p (xs @ ys) \<Longrightarrow> precededOK p xs"
  by (induction xs arbitrary: p) auto

lemma rev_dropWhile_rev_prefix:
  "rev (dropWhile P (rev xs)) @ rev (takeWhile P (rev xs)) = xs"
proof -
  have "rev (takeWhile P (rev xs) @ dropWhile P (rev xs)) = xs" by simp
  then show ?thesis by (simp only: rev_append)
qed

lemma precededOK_trim:
  assumes "precededOK p xs" and "p \<noteq> bslash"
  shows "precededOK p (trim xs)"
proof -
  let ?t = "dropWhile isWhiteSpace xs"
  have t: "precededOK p ?t" using assms by (rule precededOK_dropWhile)
  have "trim xs @ rev (takeWhile isWhiteSpace (rev ?t)) = ?t"
    unfolding trim_def by (rule rev_dropWhile_rev_prefix)
  with t show ?thesis by (metis precededOK_append_left)
qed

lemma precededOK_escapeString: "precededOK (CHR ''x'') (escapeString s)"
proof -
  have "precededOK (CHR ''x'') (replaceQuotes s)" by (rule precededOK_replaceQuotes)
  from precededOK_replaceNewlines[OF this]
  have "precededOK (CHR ''x'') (replaceNewlines (replaceQuotes s))" by simp
  then show ?thesis unfolding escapeString_def by (rule precededOK_trim) simp
qed

lemma set_trim_subset: "set (trim s) \<subseteq> set s"
proof -
  have "set (trim s) = set (dropWhile isWhiteSpace (rev (dropWhile isWhiteSpace s)))"
    by (simp add: trim_def)
  also have "\<dots> \<subseteq> set (rev (dropWhile isWhiteSpace s))"
    by (meson set_dropWhileD subsetI)
  also have "\<dots> \<subseteq> set s"
    using set_dropWhileD by fastforce
  finally show ?thesis .
qed

lemma nl_notin_replaceNewlines: "nl \<notin> set (replaceNewlines s)"
  by (auto simp: replaceNewlines_def)

lemma trim_last: "trim s \<noteq> [] \<Longrightarrow> \<not> isWhiteSpace (last (trim s))"
proof -
  assume ne: "trim s \<noteq> []"
  let ?d = "dropWhile isWhiteSpace (rev (dropWhile isWhiteSpace s))"
  from ne have d: "?d \<noteq> []" by (simp add: trim_def)
  then have "\<not> isWhiteSpace (hd ?d)" by (rule hd_dropWhile)
  moreover have "last (trim s) = hd ?d" using d by (simp add: trim_def last_rev)
  ultimately show ?thesis by simp
qed

lemma trim_hd: "trim s \<noteq> [] \<Longrightarrow> \<not> isWhiteSpace (hd (trim s))"
proof -
  assume ne: "trim s \<noteq> []"
  let ?t = "dropWhile isWhiteSpace s"
  have e: "trim s @ rev (takeWhile isWhiteSpace (rev ?t)) = ?t"
    unfolding trim_def by (rule rev_dropWhile_rev_prefix)
  have tne: "?t \<noteq> []"
  proof
    assume "?t = []"
    with e have "trim s = []" by simp
    with ne show False by simp
  qed
  then have "\<not> isWhiteSpace (hd ?t)" by (rule hd_dropWhile)
  moreover from e ne have "hd ?t = hd (trim s)" by (metis hd_append2)
  ultimately show ?thesis by simp
qed

text \<open>
  What holds for every input: the output of \<open>escapeString\<close> holds no line feed, every single
  quote in it stands directly after a backslash, and it neither starts nor ends with white
  space.
\<close>

lemma escapeString_quote_after_backslash:
  "nl \<notin> set (escapeString s)
   \<and> (\<forall>i < length (escapeString s). escapeString s ! i = sq \<longrightarrow>
         0 < i \<and> escapeString s ! (i - 1) = bslash)
   \<and> (escapeString s \<noteq> [] \<longrightarrow>
         \<not> isWhiteSpace (hd (escapeString s)) \<and> \<not> isWhiteSpace (last (escapeString s)))"
proof (intro conjI)
  show "nl \<notin> set (escapeString s)"
    using set_trim_subset[of "replaceNewlines (replaceQuotes s)"] nl_notin_replaceNewlines
    unfolding escapeString_def by blast
next
  have h: "\<forall>i < length (escapeString s). escapeString s ! i = sq \<longrightarrow>
          (if i = 0 then CHR ''x'' = bslash else escapeString s ! (i - 1) = bslash)"
    using precededOK_escapeString[of s] by (simp only: precededOK_nth)
  show "\<forall>i < length (escapeString s). escapeString s ! i = sq \<longrightarrow>
         0 < i \<and> escapeString s ! (i - 1) = bslash"
  proof (intro allI impI)
    fix i assume "i < length (escapeString s)" and "escapeString s ! i = sq"
    with h have "if i = 0 then CHR ''x'' = bslash else escapeString s ! (i - 1) = bslash"
      by blast
    then show "0 < i \<and> escapeString s ! (i - 1) = bslash"
      by (cases "i = 0") simp_all
  qed
next
  show "escapeString s \<noteq> [] \<longrightarrow>
         \<not> isWhiteSpace (hd (escapeString s)) \<and> \<not> isWhiteSpace (last (escapeString s))"
    unfolding escapeString_def using trim_hd trim_last by blast
qed

text \<open>For an input without backslash the output holds no unescaped quote.\<close>

lemma wellEscaped_Cons: "c \<noteq> bslash \<Longrightarrow> wellEscaped (c # cs) = (c \<noteq> sq \<and> wellEscaped cs)"
  by (cases cs) auto

lemma wellEscaped_no_unescaped: "wellEscaped xs \<Longrightarrow> \<not> hasUnescapedQuote xs"
  by (induction xs rule: hasUnescapedQuote.induct) (auto split: if_splits)

lemma wellEscaped_replaceQuotes: "bslash \<notin> set s \<Longrightarrow> wellEscaped (replaceQuotes s)"
  by (induction s) (auto simp: wellEscaped_Cons)

lemma wellEscaped_replaceNewlines: "wellEscaped xs \<Longrightarrow> wellEscaped (replaceNewlines xs)"
  unfolding replaceNewlines_def
  by (induction xs rule: wellEscaped.induct) (auto split: if_splits)

lemma wellEscaped_dropWhile: "wellEscaped xs \<Longrightarrow> wellEscaped (dropWhile isWhiteSpace xs)"
proof (induction xs)
  case Nil
  then show ?case by simp
next
  case (Cons c cs)
  show ?case
  proof (cases "isWhiteSpace c")
    case True
    then have "c \<noteq> bslash" by (auto simp: isWhiteSpace_def)
    with Cons.prems have "wellEscaped cs" by (simp add: wellEscaped_Cons)
    with Cons.IH True show ?thesis by simp
  next
    case False
    with Cons.prems show ?thesis by simp
  qed
qed

lemma wellEscaped_drop_trailing:
  "wellEscaped (xs @ ys) \<Longrightarrow> \<forall>y \<in> set ys. isWhiteSpace y \<Longrightarrow> wellEscaped xs"
proof (induction xs rule: wellEscaped.induct)
  case 1
  show ?case by simp
next
  case (2 c)
  have ws: "\<And>y. isWhiteSpace y \<Longrightarrow> y \<noteq> sq \<and> y \<noteq> bslash" by (auto simp: isWhiteSpace_def)
  show ?case
  proof (cases ys)
    case Nil
    with 2 show ?thesis by simp
  next
    case (Cons y r)
    with 2 ws[of y] show ?thesis by (auto split: if_splits)
  qed
next
  case (3 c d cs)
  then show ?case by (auto split: if_splits)
qed

lemma wellEscaped_trim: "wellEscaped xs \<Longrightarrow> wellEscaped (trim xs)"
proof -
  assume w: "wellEscaped xs"
  let ?t = "dropWhile isWhiteSpace xs"
  have t: "wellEscaped ?t" using w by (rule wellEscaped_dropWhile)
  have e: "trim xs @ rev (takeWhile isWhiteSpace (rev ?t)) = ?t"
    unfolding trim_def by (rule rev_dropWhile_rev_prefix)
  have a: "\<forall>y \<in> set (rev (takeWhile isWhiteSpace (rev ?t))). isWhiteSpace y"
    by (auto dest: set_takeWhileD)
  from t e have "wellEscaped (trim xs @ rev (takeWhile isWhiteSpace (rev ?t)))" by simp
  then show ?thesis using a by (rule wellEscaped_drop_trailing)
qed

lemma escapeString_safe_without_backslash:
  "bslash \<notin> set s \<Longrightarrow> \<not> hasUnescapedQuote (escapeString s)"
  unfolding escapeString_def
  by (intro wellEscaped_no_unescaped wellEscaped_trim wellEscaped_replaceNewlines
        wellEscaped_replaceQuotes)

text \<open>
  Claim C6 says that for every input with a single quote and a line feed the output holds
  no raw (unescaped) single quote. The code breaks it on the input backslash, quote, line
  feed: \<open>escapeString\<close> puts a backslash before the quote and leaves the backslash of the
  input as it is, the output is backslash, backslash, quote, and there the two backslashes
  form one escape and the quote after them is unescaped.
\<close>

theorem escapeString_leaves_quote_unescaped:
  "escapeString [bslash, sq, nl] = [bslash, bslash, sq]
   \<and> hasUnescapedQuote (escapeString [bslash, sq, nl])"
  by code_simp

section \<open>Locator resolution\<close>

lemma roleMap_empty: "roleMap et = [] \<longleftrightarrow> et = Other"
  by (cases et) simp_all

text \<open>
  Counterexample to C2 as stated: a button without aria-label whose visible text has 51
  characters. The role strategy applies all the same, with the text cut to its first 50
  characters (\<open>substring(0, 50)\<close>).
\<close>

theorem tryGenerateLocator_role_long_text_counterexample:
  "ariaLabel longTextInfo = None \<and> length (strOf (text_content longTextInfo)) = 51 \<and>
   tryGenerateLocator longTextInfo Button (roleMap Button) GetByRole =
     Some (''getByRole('button', { name: 'aaaaaaaaaaaaaaaaaaaaaaaaaaaaaaaaaaaaaaaaaaaaaaaaaa' })'',
           GetByRole)"
  unfolding longTextInfo_def by code_simp

text \<open>
  Claim C2, amended. The role strategy applies exactly when the category has a role (every
  category but \<open>other\<close>) and either the aria-label is non-empty or, for button, link and
  heading, the visible text is non-empty, whatever its length. It yields the role with the
  escaped aria-label when there is one, and otherwise with the escaped first 50 characters
  of the visible text.
\<close>

theorem tryGenerateLocator_role_applicable:
  "(tryGenerateLocator info et (roleMap et) GetByRole \<noteq> None \<longleftrightarrow>
      et \<noteq> Other \<and> (truthy (ariaLabel info)
                      \<or> (et \<in> {Button, Link, Heading} \<and> truthy (text_content info))))
   \<and> (et \<noteq> Other \<and> truthy (ariaLabel info) \<longrightarrow>
        tryGenerateLocator info et (roleMap et) GetByRole =
          Some (getByRoleCode (roleMap et) (escapeString (strOf (ariaLabel info))), GetByRole))
   \<and> (\<not> truthy (ariaLabel info) \<and> et \<in> {Button, Link, Heading} \<and> truthy (text_content info) \<longrightarrow>
        tryGenerateLocator info et (roleMap et) GetByRole =
          Some (getByRoleCode (roleMap et) (escapeString (take 50 (strOf (text_content info)))), GetByRole))"
  by (cases et) (simp_all)
text \<open>Witness for C2: the long-text button takes the third case.\<close>

theorem tryGenerateLocator_role_applicable_witness:
  "\<not> truthy (ariaLabel longTextInfo) \<and> Button \<in> {Button, Link, Heading}
   \<and> truthy (text_content longTextInfo)
   \<and> tryGenerateLocator longTextInfo Button (roleMap Button) GetByRole =
       Some (getByRoleCode (roleMap Button)
              (escapeString (take 50 (strOf (text_content longTextInfo)))), GetByRole)"
proof -
  have h: "\<not> truthy (ariaLabel longTextInfo) \<and> Button \<in> {Button, Link, Heading}
           \<and> truthy (text_content longTextInfo)"
    by (simp add: longTextInfo_def)
  with tryGenerateLocator_role_applicable[of longTextInfo Button] show ?thesis by blast
qed

lemma firstLocator_None:
  "(\<forall>lt \<in> set lts. tryGenerateLocator info et rl lt = None) \<Longrightarrow> firstLocator info et rl lts = None"
  by (induction lts) simp_all

lemma firstLocator_Some_nonempty:
  "firstLocator info et rl lts = Some r \<Longrightarrow> fst r \<noteq> []"
proof (induction lts)
  case Nil then show ?case by simp
next
  case (Cons lt lts)
  show ?case
  proof (cases "tryGenerateLocator info et rl lt")
    case None
    with Cons show ?thesis by simp
  next
    case (Some r')
    with Cons.prems have "r' = r" by simp
    with Some show ?thesis
      by (cases lt) (auto simp: getByRoleCode_def callCode_def split: if_splits)
  qed
qed
text \<open>
  Claim C5. For every descriptor, category and configured priority list, \<open>generateLocator\<close>
  returns a non-empty locator expression; when no strategy of the list applies, it is the
  bare tag-name selector \<open>locator('<tag>')\<close>.
\<close>

theorem generateLocator_total:
  "fst (generateLocator cfg info et) \<noteq> []
   \<and> ((\<forall>lt \<in> set (locatorPriority cfg). tryGenerateLocator info et (roleMap et) lt = None) \<longrightarrow>
        generateLocator cfg info et = (''locator('' @ [sq] @ tagName info @ [sq] @ '')'', Locator))"
proof
  show "fst (generateLocator cfg info et) \<noteq> []"
  proof (cases "firstLocator info et (roleMap et) (locatorPriority cfg)")
    case None
    then show ?thesis by (simp add: generateLocator_def callCode_def)
  next
    case (Some r)
    with firstLocator_Some_nonempty[OF Some] show ?thesis by (simp add: generateLocator_def)
  qed
next
  show "(\<forall>lt \<in> set (locatorPriority cfg). tryGenerateLocator info et (roleMap et) lt = None) \<longrightarrow>
        generateLocator cfg info et = (''locator('' @ [sq] @ tagName info @ [sq] @ '')'', Locator)"
    using firstLocator_None[of "locatorPriority cfg" info et "roleMap et"]
    by (simp add: generateLocator_def callCode_def)
qed
text \<open>Witness for C5: the descriptor with every optional field \<open>null\<close>, category \<open>other\<close>.\<close>

theorem generateLocator_total_witness:
  "tryGenerateLocator nullInfo Other (roleMap Other) GetByRole = None
   \<and> tryGenerateLocator nullInfo Other (roleMap Other) GetByLabel = None
   \<and> tryGenerateLocator nullInfo Other (roleMap Other) GetByPlaceholder = None
   \<and> tryGenerateLocator nullInfo Other (roleMap Other) GetByTestId = None
   \<and> tryGenerateLocator nullInfo Other (roleMap Other) GetByText = None
   \<and> tryGenerateLocator nullInfo Other (roleMap Other) Locator = None
   \<and> generateLocator DEFAULT_CONFIG nullInfo Other = (''locator('div')'', Locator)"
proof -
  have n: "tryGenerateLocator nullInfo Other (roleMap Other) GetByRole = None"
    "tryGenerateLocator nullInfo Other (roleMap Other) GetByLabel = None"
    "tryGenerateLocator nullInfo Other (roleMap Other) GetByPlaceholder = None"
    "tryGenerateLocator nullInfo Other (roleMap Other) GetByTestId = None"
    "tryGenerateLocator nullInfo Other (roleMap Other) GetByText = None"
    "tryGenerateLocator nullInfo Other (roleMap Other) Locator = None"
    by (simp_all add: nullInfo_def)
  then have h: "\<forall>lt \<in> set (locatorPriority DEFAULT_CONFIG).
            tryGenerateLocator nullInfo Other (roleMap Other) lt = None"
    by (simp add: DEFAULT_CONFIG_def)
  with generateLocator_total[of DEFAULT_CONFIG nullInfo Other]
  have "generateLocator DEFAULT_CONFIG nullInfo Other
          = (''locator('' @ [sq] @ tagName nullInfo @ [sq] @ '')'', Locator)"
    by blast
  then have "generateLocator DEFAULT_CONFIG nullInfo Other = (''locator('div')'', Locator)"
    by (simp add: nullInfo_def)
  with n show ?thesis by (intro conjI)
qed

text \<open>
  Counterexample to C9 as stated: with an empty priority list the resolver does not fail.
  \<open>generateLocator\<close> has no \<open>throw\<close> on any path; for the log-in button, whose aria-label
  every non-empty default list would use, it returns the tag-name selector.
\<close>

theorem generateLocator_empty_priority_counterexample:
  "locatorPriority (DEFAULT_CONFIG\<lparr>locatorPriority := []\<rparr>) = []
   \<and> generateLocator (DEFAULT_CONFIG\<lparr>locatorPriority := []\<rparr>) (loginInfo ''button'') Button
       = (''locator('button')'', Locator)"
  by (simp add: generateLocator_def callCode_def loginInfo_def)

text \<open>
  Claim C9, amended. If the configured priority list is empty, resolution does not fail:
  it returns the bare tag-name selector with strategy tag \<open>locator\<close>.
\<close>

theorem generateLocator_empty_priority:
  "locatorPriority cfg = [] \<Longrightarrow>
     generateLocator cfg info et = (''locator('' @ [sq] @ tagName info @ [sq] @ '')'', Locator)"
  by (simp add: generateLocator_def callCode_def)
text \<open>Witness for C9.\<close>

theorem generateLocator_empty_priority_witness:
  "locatorPriority (DEFAULT_CONFIG\<lparr>locatorPriority := []\<rparr>) = []
   \<and> generateLocator (DEFAULT_CONFIG\<lparr>locatorPriority := []\<rparr>) nullInfo Other
       = (''locator('div')'', Locator)"
proof -
  have h: "locatorPriority (DEFAULT_CONFIG\<lparr>locatorPriority := []\<rparr>) = []" by simp
  from generateLocator_empty_priority[OF h, of nullInfo Other] h show ?thesis
    by (simp add: nullInfo_def)
qed

section \<open>Name resolution\<close>

text \<open>
  Counterexample to C3 as stated: the identifier of the log-in button is not
  \<open>loginButton\<close>; \<open>toCamelCase\<close> splits "Log in" into two words and capitalises the second.
\<close>

theorem login_identifier_counterexample:
  "generateElementName DEFAULT_CONFIG (loginInfo ''button'') Button \<noteq> ''loginButton''"
  unfolding loginInfo_def by code_simp

text \<open>
  Claim C3, amended. For the descriptor with aria-label "Log in" and role "button" (any tag
  name, every other field \<open>null\<close>), category button, default configuration: the resolver
  chooses the role strategy with expression \<open>getByRole('button', { name: 'Log in' })\<close>, and
  the identifier is \<open>logInButton\<close>.
\<close>

theorem login_scenario:
  "generateLocator DEFAULT_CONFIG (loginInfo t) Button
     = (''getByRole('button', { name: 'Log in' })'', GetByRole)
   \<and> generateElementName DEFAULT_CONFIG (loginInfo t) Button = ''logInButton''"
  unfolding loginInfo_def by code_simp

text \<open>Witness for C3, at the tag name \<open>button\<close>.\<close>

theorem login_scenario_witness:
  "generateLocator DEFAULT_CONFIG (loginInfo ''button'') Button
     = (''getByRole('button', { name: 'Log in' })'', GetByRole)
   \<and> generateElementName DEFAULT_CONFIG (loginInfo ''button'') Button = ''logInButton''"
  by (rule login_scenario)

section \<open>Metadata diff\<close>

subsection \<open>Facts about maps\<close>

lemma map_fst_mapSet:
  "map fst (mapSet m k v) = (if k \<in> set (map fst m) then map fst m else map fst m @ [k])"
  by (induction m) (force split: if_splits)+

lemma map_of_mapSet: "map_of (mapSet m k v) = (map_of m)(k \<mapsto> v)"
  by (induction m) (auto simp: fun_eq_iff)

lemma distinct_mapSet: "distinct (map fst m) \<Longrightarrow> distinct (map fst (mapSet m k v))"
  by (simp add: map_fst_mapSet)

lemma set_mapSet_subset: "set (mapSet m k v) \<subseteq> insert (k, v) (set m)"
  by (induction m) (auto split: if_splits)

lemma newMap_snoc: "newMap (es @ [(k, v)]) = mapSet (newMap es) k v"
  by (simp add: newMap_def)

lemma distinct_newMap: "distinct (map fst (newMap es))"
proof (induction es rule: rev_induct)
  case Nil
  show ?case by (simp add: newMap_def)
next
  case (snoc x es)
  obtain k v where x: "x = (k, v)" by (cases x)
  show ?case unfolding x newMap_snoc using snoc by (rule distinct_mapSet)
qed

lemma keys_newMap: "set (map fst (newMap es)) = set (map fst es)"
proof (induction es rule: rev_induct)
  case Nil
  show ?case by (simp add: newMap_def)
next
  case (snoc x es)
  obtain k v where x: "x = (k, v)" by (cases x)
  show ?case unfolding x newMap_snoc using snoc by (auto simp: map_fst_mapSet)
qed

lemma set_newMap_subset: "set (newMap es) \<subseteq> set es"
proof (induction es rule: rev_induct)
  case Nil
  show ?case by (simp add: newMap_def)
next
  case (snoc x es)
  obtain k v where x: "x = (k, v)" by (cases x)
  show ?case unfolding x newMap_snoc using snoc set_mapSet_subset[of "newMap es" k v] by auto
qed

lemma map_of_newMap_snoc:
  "map_of (newMap (es @ [(k, v)])) = (map_of (newMap es))(k \<mapsto> v)"
  by (simp add: newMap_snoc map_of_mapSet)

lemma newMap_entry_name: "(k, v) \<in> set (newMap (entriesOf xs)) \<Longrightarrow> name v = k \<and> v \<in> set xs"
  using set_newMap_subset[of "entriesOf xs"] by auto

lemma keys_newMap_entries: "set (map fst (newMap (entriesOf xs))) = set (map name xs)"
  using keys_newMap[of "entriesOf xs"] by (simp add: comp_def)

lemma map_of_newMap_entries:
  "map_of (newMap (entriesOf xs)) n =
     (if n \<in> set (map name xs) then Some (last (filter (\<lambda>e. name e = n) xs)) else None)"
proof (induction xs rule: rev_induct)
  case Nil
  show ?case by (simp add: newMap_def)
next
  case (snoc x xs)
  have "map_of (newMap (entriesOf (xs @ [x]))) = (map_of (newMap (entriesOf xs)))(name x \<mapsto> x)"
    using map_of_newMap_snoc[of "entriesOf xs" "name x" x] by simp
  with snoc show ?case by auto
qed

lemma newMap_distinct_id: "distinct (map fst es) \<Longrightarrow> newMap es = es"
proof (induction es rule: rev_induct)
  case Nil
  show ?case by (simp add: newMap_def)
next
  case (snoc x es)
  obtain k v where x: "x = (k, v)" by (cases x)
  from snoc.prems have d: "distinct (map fst es)" and nk: "k \<notin> set (map fst es)" by (auto simp: x)
  have ms: "\<And>m. k \<notin> set (map fst m) \<Longrightarrow> mapSet m k v = m @ [(k, v)]"
  proof -
    fix m :: "(string \<times> 'a) list" show "k \<notin> set (map fst m) \<Longrightarrow> mapSet m k v = m @ [(k, v)]"
      by (induction m) auto
  qed
  show ?case unfolding x newMap_snoc using snoc.IH[OF d] nk ms by simp
qed

subsection \<open>The loops of compare\<close>

lemma compareNewLoop_eq:
  "compareNewLoop o' n d =
     d\<lparr> added := added d @ map snd (filter (isAdded o') n),
        modified := modified d @ concat (map (modPairs o') n),
        unchanged := unchanged d @ map snd (filter (isUnchanged o') n) \<rparr>"
proof (induction n arbitrary: d)
  case Nil
  show ?case by simp
next
  case (Cons kv n)
  obtain k v where kv: "kv = (k, v)" by (cases kv)
  show ?case unfolding kv
    by (simp add: Cons mapGet_def isAdded_def modPairs_def isUnchanged_def split: option.splits)
qed

lemma compareOldLoop_eq:
  "compareOldLoop n o' d =
     d\<lparr> removed := removed d @ map snd (filter (\<lambda>kv. \<not> mapHas n (fst kv)) o') \<rparr>"
proof (induction o' arbitrary: d)
  case Nil
  show ?case by simp
next
  case (Cons kv o')
  obtain k v where kv: "kv = (k, v)" by (cases kv)
  show ?case unfolding kv by (simp add: Cons)
qed

lemma compare_eq:
  "compare A B =
     \<lparr> added = map snd (filter (isAdded (newMap (entriesOf (elements A)))) (newMap (entriesOf (elements B)))),
       removed = map snd (filter (\<lambda>kv. \<not> mapHas (newMap (entriesOf (elements B))) (fst kv))
                   (newMap (entriesOf (elements A)))),
       modified = concat (map (modPairs (newMap (entriesOf (elements A)))) (newMap (entriesOf (elements B)))),
       unchanged = map snd (filter (isUnchanged (newMap (entriesOf (elements A))))
                   (newMap (entriesOf (elements B)))) \<rparr>"
  by (simp add: compare_def Let_def compareNewLoop_eq compareOldLoop_eq)

lemma set_modPairs:
  "distinct (map fst n) \<Longrightarrow>
     set (concat (map (modPairs o') n)) =
       {(oe, ne). \<exists>k. map_of o' k = Some oe \<and> map_of n k = Some ne \<and> locatorCode oe \<noteq> locatorCode ne}"
proof -
  assume d: "distinct (map fst n)"
  show ?thesis
  proof (intro set_eqI iffI)
    fix p assume "p \<in> set (concat (map (modPairs o') n))"
    then obtain kv where kv: "kv \<in> set n" and p: "p \<in> set (modPairs o' kv)" by auto
    obtain k v where e: "kv = (k, v)" by (cases kv)
    from p e have "\<exists>oe. map_of o' k = Some oe \<and> locatorCode oe \<noteq> locatorCode v \<and> p = (oe, v)"
      by (cases "map_of o' k") (auto simp: modPairs_def split: if_splits)
    then obtain oe where oe: "map_of o' k = Some oe" "locatorCode oe \<noteq> locatorCode v" "p = (oe, v)"
      by blast
    from kv e d have "map_of n k = Some v" by simp
    with oe show "p \<in> {(oe, ne). \<exists>k. map_of o' k = Some oe \<and> map_of n k = Some ne \<and> locatorCode oe \<noteq> locatorCode ne}"
      by auto
  next
    fix p assume "p \<in> {(oe, ne). \<exists>k. map_of o' k = Some oe \<and> map_of n k = Some ne \<and> locatorCode oe \<noteq> locatorCode ne}"
    then obtain oe ne k where p: "p = (oe, ne)" and a: "map_of o' k = Some oe" "map_of n k = Some ne"
        "locatorCode oe \<noteq> locatorCode ne" by auto
    from a(2) have "(k, ne) \<in> set n" by (rule map_of_SomeD)
    moreover from a p have "p \<in> set (modPairs o' (k, ne))" by (simp add: modPairs_def)
    ultimately show "p \<in> set (concat (map (modPairs o') n))" by auto
  qed
qed

lemma modifiedIds_eq:
  assumes "\<And>k v. (k, v) \<in> set o' \<Longrightarrow> name v = k"
  shows "map (\<lambda>p. name (fst p)) (concat (map (modPairs o') n)) =
         map fst (filter (\<lambda>kv. modPairs o' kv \<noteq> []) n)"
proof (induction n)
  case Nil
  show ?case by simp
next
  case (Cons kv n)
  obtain k v where e: "kv = (k, v)" by (cases kv)
  show ?case
  proof (cases "map_of o' k")
    case None
    with Cons e show ?thesis by (simp add: modPairs_def)
  next
    case (Some oe)
    then have "(k, oe) \<in> set o'" by (rule map_of_SomeD)
    then have "name oe = k" by (rule assms)
    with Cons e Some show ?thesis by (simp add: modPairs_def)
  qed
qed

lemma ids_of_filter:
  assumes "\<And>k v. (k, v) \<in> set n \<Longrightarrow> name v = k"
  shows "map name (map snd (filter P n)) = map fst (filter P n)"
proof -
  have "\<And>kv. kv \<in> set (filter P n) \<Longrightarrow> name (snd kv) = fst kv"
    using assms by auto
  then show ?thesis by (simp add: comp_def cong: map_cong)
qed

lemma three_way_partition:
  fixes n :: "('k \<times> 'a) list"
  assumes d: "distinct (map fst n)"
    and ex: "\<And>kv. kv \<in> set n \<Longrightarrow> (P kv \<and> \<not> Q kv \<and> \<not> R kv) \<or> (\<not> P kv \<and> Q kv \<and> \<not> R kv) \<or> (\<not> P kv \<and> \<not> Q kv \<and> R kv)"
  shows "distinct (map fst (filter P n) @ map fst (filter Q n) @ map fst (filter R n))"
    and "set (map fst (filter P n) @ map fst (filter Q n) @ map fst (filter R n)) = set (map fst n)"
proof -
  have inj: "inj_on fst (set n)" using d by (simp add: distinct_map)
  have dd: "\<And>S. distinct (map fst (filter S n))" using d by (rule distinct_map_filter)
  have disj: "\<And>S T. (\<And>kv. kv \<in> set n \<Longrightarrow> \<not> (S kv \<and> T kv)) \<Longrightarrow>
      set (map fst (filter S n)) \<inter> set (map fst (filter T n)) = {}"
  proof -
    fix S T :: "'k \<times> 'a \<Rightarrow> bool"
    assume st: "\<And>kv. kv \<in> set n \<Longrightarrow> \<not> (S kv \<and> T kv)"
    show "set (map fst (filter S n)) \<inter> set (map fst (filter T n)) = {}"
    proof (rule ccontr)
      assume "set (map fst (filter S n)) \<inter> set (map fst (filter T n)) \<noteq> {}"
      then obtain a b where a: "a \<in> set n" "S a" and b: "b \<in> set n" "T b" and ab: "fst a = fst b"
        by auto
      from inj ab a(1) b(1) have "a = b" by (rule inj_onD)
      with a b st show False by blast
    qed
  qed
  have pq: "set (map fst (filter P n)) \<inter> set (map fst (filter Q n)) = {}"
  proof (rule disj)
    fix kv assume "kv \<in> set n"
    from ex[OF this] show "\<not> (P kv \<and> Q kv)" by blast
  qed
  have pr: "set (map fst (filter P n)) \<inter> set (map fst (filter R n)) = {}"
  proof (rule disj)
    fix kv assume "kv \<in> set n"
    from ex[OF this] show "\<not> (P kv \<and> R kv)" by blast
  qed
  have qr: "set (map fst (filter Q n)) \<inter> set (map fst (filter R n)) = {}"
  proof (rule disj)
    fix kv assume "kv \<in> set n"
    from ex[OF this] show "\<not> (Q kv \<and> R kv)" by blast
  qed
  show "distinct (map fst (filter P n) @ map fst (filter Q n) @ map fst (filter R n))"
    using dd[of P] dd[of Q] dd[of R] pq pr qr by (simp add: Int_Un_distrib)
  show "set (map fst (filter P n) @ map fst (filter Q n) @ map fst (filter R n)) = set (map fst n)"
  proof (intro equalityI subsetI)
    fix k assume "k \<in> set (map fst (filter P n) @ map fst (filter Q n) @ map fst (filter R n))"
    then show "k \<in> set (map fst n)" by auto
  next
    fix k assume "k \<in> set (map fst n)"
    then obtain kv where kv: "kv \<in> set n" "fst kv = k" by auto
    from ex[OF kv(1)] have "P kv \<or> Q kv \<or> R kv" by blast
    with kv have "kv \<in> set (filter P n) \<or> kv \<in> set (filter Q n) \<or> kv \<in> set (filter R n)"
      by simp
    with kv(2) have "k \<in> fst ` set (filter P n) \<or> k \<in> fst ` set (filter Q n) \<or> k \<in> fst ` set (filter R n)"
      by blast
    then show "k \<in> set (map fst (filter P n) @ map fst (filter Q n) @ map fst (filter R n))"
      by (simp only: set_append set_map Un_iff)
  qed
qed

lemma mapOfBatch_entry: "(k, v) \<in> set (mapOfBatch A) \<Longrightarrow> name v = k"
  using newMap_entry_name[of k v "elements A"] by simp

lemma mapHas_iff: "mapHas m k \<longleftrightarrow> map_of m k \<noteq> None"
  by (simp add: mapHas_def map_of_eq_None_iff)

lemma addedIds_compare:
  "addedIds (compare A B) = map fst (filter (isAdded (mapOfBatch A)) (mapOfBatch B))"
  unfolding addedIds_def compare_eq
  using ids_of_filter[of "mapOfBatch B" "isAdded (mapOfBatch A)"] mapOfBatch_entry[of _ _ B]
  by simp

lemma unchangedIds_compare:
  "unchangedIds (compare A B) = map fst (filter (isUnchanged (mapOfBatch A)) (mapOfBatch B))"
  unfolding unchangedIds_def compare_eq
  using ids_of_filter[of "mapOfBatch B" "isUnchanged (mapOfBatch A)"] mapOfBatch_entry[of _ _ B]
  by simp

lemma removedIds_compare:
  "removedIds (compare A B) =
     map fst (filter (\<lambda>kv. \<not> mapHas (mapOfBatch B) (fst kv)) (mapOfBatch A))"
  unfolding removedIds_def compare_eq
  using ids_of_filter[of "mapOfBatch A" "\<lambda>kv. \<not> mapHas (mapOfBatch B) (fst kv)"]
    mapOfBatch_entry[of _ _ A]
  by simp

lemma modifiedIds_compare:
  "modifiedIds (compare A B) =
     map fst (filter (\<lambda>kv. modPairs (mapOfBatch A) kv \<noteq> []) (mapOfBatch B))"
  unfolding modifiedIds_def compare_eq
  using modifiedIds_eq[of "mapOfBatch A" "mapOfBatch B"] mapOfBatch_entry[of _ _ A]
  by simp

lemma classes_exclusive:
  "(isAdded m kv \<and> \<not> modPairs m kv \<noteq> [] \<and> \<not> isUnchanged m kv)
   \<or> (\<not> isAdded m kv \<and> modPairs m kv \<noteq> [] \<and> \<not> isUnchanged m kv)
   \<or> (\<not> isAdded m kv \<and> \<not> modPairs m kv \<noteq> [] \<and> isUnchanged m kv)"
  by (cases "map_of m (fst kv)") (simp_all add: isAdded_def modPairs_def isUnchanged_def)

lemma new_side_partition:
  "distinct (addedIds (compare A B) @ modifiedIds (compare A B) @ unchangedIds (compare A B))"
  "set (addedIds (compare A B) @ modifiedIds (compare A B) @ unchangedIds (compare A B))
     = set (map name (elements B))"
proof -
  have d: "distinct (map fst (mapOfBatch B))" by (rule distinct_newMap)
  have ex: "\<And>kv. kv \<in> set (mapOfBatch B) \<Longrightarrow>
      (isAdded (mapOfBatch A) kv \<and> \<not> modPairs (mapOfBatch A) kv \<noteq> [] \<and> \<not> isUnchanged (mapOfBatch A) kv)
   \<or> (\<not> isAdded (mapOfBatch A) kv \<and> modPairs (mapOfBatch A) kv \<noteq> [] \<and> \<not> isUnchanged (mapOfBatch A) kv)
   \<or> (\<not> isAdded (mapOfBatch A) kv \<and> \<not> modPairs (mapOfBatch A) kv \<noteq> [] \<and> isUnchanged (mapOfBatch A) kv)"
    by (rule classes_exclusive)
  show "distinct (addedIds (compare A B) @ modifiedIds (compare A B) @ unchangedIds (compare A B))"
    unfolding addedIds_compare modifiedIds_compare unchangedIds_compare
    using d ex by (rule three_way_partition(1))
  have "set (addedIds (compare A B) @ modifiedIds (compare A B) @ unchangedIds (compare A B))
          = set (map fst (mapOfBatch B))"
    unfolding addedIds_compare modifiedIds_compare unchangedIds_compare
    using d ex by (rule three_way_partition(2))
  then show "set (addedIds (compare A B) @ modifiedIds (compare A B) @ unchangedIds (compare A B))
     = set (map name (elements B))"
    by (simp only: keys_newMap_entries)
qed

lemma removed_side:
  "distinct (removedIds (compare A B))"
  "set (removedIds (compare A B)) = set (map name (elements A)) - set (map name (elements B))"
proof -
  have d: "distinct (map fst (mapOfBatch A))" by (rule distinct_newMap)
  show "distinct (removedIds (compare A B))"
    unfolding removedIds_compare using d by (rule distinct_map_filter)
  have "set (removedIds (compare A B)) = set (map fst (mapOfBatch A)) - set (map fst (mapOfBatch B))"
    unfolding removedIds_compare by (auto simp: mapHas_def)
  then show "set (removedIds (compare A B)) = set (map name (elements A)) - set (map name (elements B))"
    by (simp only: keys_newMap_entries)
qed
text \<open>
  Claim C1. For every pair of batches (with unique identifiers or not), the identifiers in
  added, removed, modified and unchanged are pairwise distinct across and within the four
  buckets, together they are exactly the identifiers of the old and the new batch, and
  \<open>hasChanges\<close> holds iff added, removed or modified is non-empty.
\<close>

theorem compare_partition:
  "distinct (addedIds (compare A B) @ removedIds (compare A B)
             @ modifiedIds (compare A B) @ unchangedIds (compare A B))
   \<and> set (addedIds (compare A B) @ removedIds (compare A B)
           @ modifiedIds (compare A B) @ unchangedIds (compare A B))
       = set (map name (elements A)) \<union> set (map name (elements B))
   \<and> (hasChanges (compare A B) \<longleftrightarrow>
        added (compare A B) \<noteq> [] \<or> removed (compare A B) \<noteq> [] \<or> modified (compare A B) \<noteq> [])"
proof (intro conjI)
  let ?a = "addedIds (compare A B)" and ?r = "removedIds (compare A B)"
  let ?m = "modifiedIds (compare A B)" and ?u = "unchangedIds (compare A B)"
  have n1: "distinct (?a @ ?m @ ?u)" and n2: "set (?a @ ?m @ ?u) = set (map name (elements B))"
    by (rule new_side_partition)+
  have r1: "distinct ?r"
    and r2: "set ?r = set (map name (elements A)) - set (map name (elements B))"
    by (rule removed_side)+
  from n2 r2 have dj: "set ?r \<inter> set ?a = {}" "set ?r \<inter> set ?m = {}" "set ?r \<inter> set ?u = {}"
    by auto
  from n1 r1 dj show "distinct (?a @ ?r @ ?m @ ?u)" by auto
  have "set (?a @ ?r @ ?m @ ?u) = set (?a @ ?m @ ?u) \<union> set ?r" by auto
  also have "\<dots> = set (map name (elements B)) \<union> (set (map name (elements A)) - set (map name (elements B)))"
    by (simp only: n2 r2)
  also have "\<dots> = set (map name (elements A)) \<union> set (map name (elements B))" by blast
  finally show "set (?a @ ?r @ ?m @ ?u) = set (map name (elements A)) \<union> set (map name (elements B))" .
  show "hasChanges (compare A B) \<longleftrightarrow>
        added (compare A B) \<noteq> [] \<or> removed (compare A B) \<noteq> [] \<or> modified (compare A B) \<noteq> []"
    by (simp add: hasChanges_def)
qed

text \<open>Witness for C1: two batches with unique identifiers, one identifier in each bucket.\<close>

theorem compare_partition_witness:
  "distinct (map name (elements oldBatch)) \<and> distinct (map name (elements newBatch))
   \<and> addedIds (compare oldBatch newBatch) = [''phoneInput'']
   \<and> removedIds (compare oldBatch newBatch) = [''legacyLink'']
   \<and> modifiedIds (compare oldBatch newBatch) = [''emailInput'']
   \<and> unchangedIds (compare oldBatch newBatch) = [''submitButton'']
   \<and> distinct (addedIds (compare oldBatch newBatch) @ removedIds (compare oldBatch newBatch)
             @ modifiedIds (compare oldBatch newBatch) @ unchangedIds (compare oldBatch newBatch))
   \<and> hasChanges (compare oldBatch newBatch)"
proof -
  have e: "distinct (map name (elements oldBatch))" "distinct (map name (elements newBatch))"
    "addedIds (compare oldBatch newBatch) = [''phoneInput'']"
    "removedIds (compare oldBatch newBatch) = [''legacyLink'']"
    "modifiedIds (compare oldBatch newBatch) = [''emailInput'']"
    "unchangedIds (compare oldBatch newBatch) = [''submitButton'']"
    by code_simp+
  have n: "added (compare oldBatch newBatch) \<noteq> []"
    using e(3) by (auto simp: addedIds_def)
  from compare_partition[of oldBatch newBatch] n e show ?thesis by blast
qed

lemma map_of_batch:
  "n \<in> set (map name (elements A)) \<Longrightarrow> map_of (mapOfBatch A) n = Some (elementNamed n (elements A))"
  by (simp only: map_of_newMap_entries elementNamed_def if_True)

lemma elementNamed_unique:
  "distinct (map name xs) \<Longrightarrow> e \<in> set xs \<Longrightarrow> elementNamed (name e) xs = e"
proof (induction xs)
  case Nil
  then show ?case by simp
next
  case (Cons x xs)
  show ?case
  proof (cases "e = x")
    case True
    have "filter (\<lambda>y. name y = name x) xs = []"
    proof (rule ccontr)
      assume "filter (\<lambda>y. name y = name x) xs \<noteq> []"
      then obtain y where y: "y \<in> set xs" "name y = name x"
        by (auto simp: filter_empty_conv)
      from y(1) have "name y \<in> name ` set xs" by (rule imageI)
      with y(2) have "name x \<in> set (map name xs)" by simp
      with Cons.prems(1) show False by simp
    qed
    with True show ?thesis by (simp add: elementNamed_def)
  next
    case False
    with Cons.prems have ex: "e \<in> set xs" and nx: "name x \<noteq> name e" by auto
    from ex have "filter (\<lambda>y. name y = name e) xs \<noteq> []" by (auto simp: filter_empty_conv)
    with Cons.IH[OF _ ex] Cons.prems(1) nx show ?thesis by (simp add: elementNamed_def)
  qed
qed

lemma in_filter_keys:
  assumes d: "distinct (map fst m)" and g: "map_of m n = Some v"
  shows "n \<in> set (map fst (filter P m)) \<longleftrightarrow> P (n, v)"
proof
  assume "n \<in> set (map fst (filter P m))"
  then obtain w where w: "(n, w) \<in> set m" "P (n, w)" by auto
  from d w(1) have "map_of m n = Some w" by simp
  with g w(2) show "P (n, v)" by simp
next
  assume p: "P (n, v)"
  from g have "(n, v) \<in> set m" by (rule map_of_SomeD)
  with p have "(n, v) \<in> set (filter P m)" by simp
  then have "fst (n, v) \<in> fst ` set (filter P m)" by (rule imageI)
  then show "n \<in> set (map fst (filter P m))" by simp
qed

lemma in_filter_values:
  assumes d: "distinct (map fst m)" and g: "map_of m n = Some v"
    and nm: "\<And>k w. (k, w) \<in> set m \<Longrightarrow> name w = k" and vn: "name v = n"
  shows "v \<in> set (map snd (filter P m)) \<longleftrightarrow> P (n, v)"
proof
  assume "v \<in> set (map snd (filter P m))"
  then obtain k where k: "(k, v) \<in> set m" "P (k, v)" by auto
  from nm[OF k(1)] vn have "k = n" by simp
  with k show "P (n, v)" by simp
next
  assume p: "P (n, v)"
  from g have "(n, v) \<in> set m" by (rule map_of_SomeD)
  with p have "(n, v) \<in> set (filter P m)" by simp
  then have "snd (n, v) \<in> snd ` set (filter P m)" by (rule imageI)
  then show "v \<in> set (map snd (filter P m))" by simp
qed
text \<open>
  Claim C7. For every identifier present in both batches, with the old and the new element
  held under it: the identifier (and the pair of the two elements) is in modified iff their
  locator expressions differ, it (and the new element) is in unchanged iff they are equal,
  and it is neither added nor removed. Nothing but the locator expression enters the test,
  so a difference in strategy tag, category or descriptor alone leaves it unchanged.
\<close>

theorem compare_modified_iff_locator_differs:
  assumes inA: "n \<in> set (map name (elements A))" and inB: "n \<in> set (map name (elements B))"
  shows "(n \<in> set (modifiedIds (compare A B)) \<longleftrightarrow>
            locatorCode (elementNamed n (elements A)) \<noteq> locatorCode (elementNamed n (elements B)))
       \<and> (n \<in> set (unchangedIds (compare A B)) \<longleftrightarrow>
            locatorCode (elementNamed n (elements A)) = locatorCode (elementNamed n (elements B)))
       \<and> ((elementNamed n (elements A), elementNamed n (elements B)) \<in> set (modified (compare A B)) \<longleftrightarrow>
            locatorCode (elementNamed n (elements A)) \<noteq> locatorCode (elementNamed n (elements B)))
       \<and> (elementNamed n (elements B) \<in> set (unchanged (compare A B)) \<longleftrightarrow>
            locatorCode (elementNamed n (elements A)) = locatorCode (elementNamed n (elements B)))
       \<and> n \<notin> set (addedIds (compare A B)) \<and> n \<notin> set (removedIds (compare A B))"
proof -
  let ?eo = "elementNamed n (elements A)" and ?en = "elementNamed n (elements B)"
  have gA: "map_of (mapOfBatch A) n = Some ?eo" using inA by (rule map_of_batch)
  have gB: "map_of (mapOfBatch B) n = Some ?en" using inB by (rule map_of_batch)
  have dB: "distinct (map fst (mapOfBatch B))" and dA: "distinct (map fst (mapOfBatch A))"
    by (rule distinct_newMap)+
  have nB: "name ?en = n" using map_of_SomeD[OF gB] by (rule mapOfBatch_entry)
  have c1: "n \<in> set (modifiedIds (compare A B)) \<longleftrightarrow> locatorCode ?eo \<noteq> locatorCode ?en"
    unfolding modifiedIds_compare in_filter_keys[OF dB gB] using gA by (simp add: modPairs_def)
  have c2: "n \<in> set (unchangedIds (compare A B)) \<longleftrightarrow> locatorCode ?eo = locatorCode ?en"
    unfolding unchangedIds_compare in_filter_keys[OF dB gB] using gA by (simp add: isUnchanged_def)
  have c3: "(?eo, ?en) \<in> set (modified (compare A B)) \<longleftrightarrow> locatorCode ?eo \<noteq> locatorCode ?en"
  proof -
    have "set (modified (compare A B)) =
       {(oe, ne). \<exists>k. map_of (mapOfBatch A) k = Some oe \<and> map_of (mapOfBatch B) k = Some ne
                       \<and> locatorCode oe \<noteq> locatorCode ne}"
      unfolding compare_eq using set_modPairs[OF dB, of "mapOfBatch A"] by simp
    with gA gB show ?thesis by auto
  qed
  have c4: "?en \<in> set (unchanged (compare A B)) \<longleftrightarrow> locatorCode ?eo = locatorCode ?en"
  proof -
    have "?en \<in> set (map snd (filter (isUnchanged (mapOfBatch A)) (mapOfBatch B)))
            \<longleftrightarrow> isUnchanged (mapOfBatch A) (n, ?en)"
      using dB gB mapOfBatch_entry nB by (rule in_filter_values)
    then show ?thesis unfolding compare_eq using gA by (simp add: isUnchanged_def)
  qed
  have c5: "n \<notin> set (addedIds (compare A B))"
    unfolding addedIds_compare in_filter_keys[OF dB gB] using gA by (simp add: isAdded_def)
  have c6: "n \<notin> set (removedIds (compare A B))"
    unfolding removedIds_compare in_filter_keys[OF dA gA] using gB by (simp add: mapHas_iff)
  from c1 c2 c3 c4 c5 c6 show ?thesis by blast
qed
text \<open>Witness for C7: \<open>submitButton\<close> changes its strategy tag and its category but not its
  locator expression, and is unchanged.\<close>

theorem compare_modified_iff_locator_differs_witness:
  "''submitButton'' \<in> set (map name (elements oldBatch))
   \<and> ''submitButton'' \<in> set (map name (elements newBatch))
   \<and> locatorType (elementNamed ''submitButton'' (elements oldBatch))
       \<noteq> locatorType (elementNamed ''submitButton'' (elements newBatch))
   \<and> elementType (elementNamed ''submitButton'' (elements oldBatch))
       \<noteq> elementType (elementNamed ''submitButton'' (elements newBatch))
   \<and> ''submitButton'' \<in> set (unchangedIds (compare oldBatch newBatch))
   \<and> ''submitButton'' \<notin> set (modifiedIds (compare oldBatch newBatch))"
proof -
  have a: "''submitButton'' \<in> set (map name (elements oldBatch))" by code_simp
  have b: "''submitButton'' \<in> set (map name (elements newBatch))" by code_simp
  have c: "locatorCode (elementNamed ''submitButton'' (elements oldBatch))
           = locatorCode (elementNamed ''submitButton'' (elements newBatch))" by code_simp
  have d: "locatorType (elementNamed ''submitButton'' (elements oldBatch))
       \<noteq> locatorType (elementNamed ''submitButton'' (elements newBatch))" by code_simp
  have e: "elementType (elementNamed ''submitButton'' (elements oldBatch))
       \<noteq> elementType (elementNamed ''submitButton'' (elements newBatch))" by code_simp
  from compare_modified_iff_locator_differs[OF a b] a b c d e show ?thesis by blast
qed

text \<open>
  Claim C10. Swapping the arguments of \<open>compare\<close> swaps added and removed (as lists), turns
  each modified pair around, and leaves the identifiers of modified and of unchanged the
  same; this holds for every pair of batches.
\<close>

theorem compare_swap:
  "added (compare A B) = removed (compare B A)
   \<and> removed (compare A B) = added (compare B A)
   \<and> set (modified (compare A B)) = (\<lambda>(x, y). (y, x)) ` set (modified (compare B A))
   \<and> set (modifiedIds (compare A B)) = set (modifiedIds (compare B A))
   \<and> set (unchangedIds (compare A B)) = set (unchangedIds (compare B A))"
proof (intro conjI)
  have dB: "distinct (map fst (mapOfBatch B))" and dA: "distinct (map fst (mapOfBatch A))"
    by (rule distinct_newMap)+
  have ar: "\<And>X Y. added (compare X Y) = removed (compare Y X)"
    unfolding compare_eq by (simp add: isAdded_def[abs_def] mapHas_iff)
  show "added (compare A B) = removed (compare B A)" by (rule ar)
  show "removed (compare A B) = added (compare B A)" by (rule ar[symmetric])
  have mAB: "set (modified (compare A B)) =
       {(oe, ne). \<exists>k. map_of (mapOfBatch A) k = Some oe \<and> map_of (mapOfBatch B) k = Some ne
                       \<and> locatorCode oe \<noteq> locatorCode ne}"
    unfolding compare_eq using set_modPairs[OF dB, of "mapOfBatch A"] by simp
  have mBA: "set (modified (compare B A)) =
       {(oe, ne). \<exists>k. map_of (mapOfBatch B) k = Some oe \<and> map_of (mapOfBatch A) k = Some ne
                       \<and> locatorCode oe \<noteq> locatorCode ne}"
    unfolding compare_eq using set_modPairs[OF dA, of "mapOfBatch B"] by simp
  show sw: "set (modified (compare A B)) = (\<lambda>(x, y). (y, x)) ` set (modified (compare B A))"
    unfolding mAB mBA by (auto simp: image_iff)
  have idm: "\<And>X Y. set (modifiedIds (compare X Y)) =
      {k. \<exists>oe ne. map_of (mapOfBatch X) k = Some oe \<and> map_of (mapOfBatch Y) k = Some ne
                       \<and> locatorCode oe \<noteq> locatorCode ne}"
  proof -
    fix X Y
    have dY: "distinct (map fst (mapOfBatch Y))" by (rule distinct_newMap)
    show "set (modifiedIds (compare X Y)) =
      {k. \<exists>oe ne. map_of (mapOfBatch X) k = Some oe \<and> map_of (mapOfBatch Y) k = Some ne
                       \<and> locatorCode oe \<noteq> locatorCode ne}"
    proof (intro set_eqI iffI)
      fix k assume "k \<in> set (modifiedIds (compare X Y))"
      then obtain v where v: "(k, v) \<in> set (mapOfBatch Y)" "modPairs (mapOfBatch X) (k, v) \<noteq> []"
        unfolding modifiedIds_compare by auto
      from dY v(1) have "map_of (mapOfBatch Y) k = Some v" by simp
      moreover from v(2) have "\<exists>oe. map_of (mapOfBatch X) k = Some oe \<and> locatorCode oe \<noteq> locatorCode v"
        by (cases "map_of (mapOfBatch X) k") (auto simp: modPairs_def split: if_splits)
      ultimately show "k \<in> {k. \<exists>oe ne. map_of (mapOfBatch X) k = Some oe \<and> map_of (mapOfBatch Y) k = Some ne
                       \<and> locatorCode oe \<noteq> locatorCode ne}" by blast
    next
      fix k assume "k \<in> {k. \<exists>oe ne. map_of (mapOfBatch X) k = Some oe \<and> map_of (mapOfBatch Y) k = Some ne
                       \<and> locatorCode oe \<noteq> locatorCode ne}"
      then obtain oe ne where a: "map_of (mapOfBatch X) k = Some oe" "map_of (mapOfBatch Y) k = Some ne"
          "locatorCode oe \<noteq> locatorCode ne" by blast
      from a(1,3) have "modPairs (mapOfBatch X) (k, ne) \<noteq> []" by (simp add: modPairs_def)
      then show "k \<in> set (modifiedIds (compare X Y))"
        unfolding modifiedIds_compare in_filter_keys[OF dY a(2)] .
    qed
  qed
  show "set (modifiedIds (compare A B)) = set (modifiedIds (compare B A))"
    unfolding idm by (intro set_eqI iffI; clarsimp; metis)
  have idu: "\<And>X Y. set (unchangedIds (compare X Y)) =
      {k. \<exists>oe ne. map_of (mapOfBatch X) k = Some oe \<and> map_of (mapOfBatch Y) k = Some ne
                       \<and> locatorCode oe = locatorCode ne}"
  proof -
    fix X Y
    have dY: "distinct (map fst (mapOfBatch Y))" by (rule distinct_newMap)
    show "set (unchangedIds (compare X Y)) =
      {k. \<exists>oe ne. map_of (mapOfBatch X) k = Some oe \<and> map_of (mapOfBatch Y) k = Some ne
                       \<and> locatorCode oe = locatorCode ne}"
    proof (intro set_eqI iffI)
      fix k assume "k \<in> set (unchangedIds (compare X Y))"
      then obtain v where v: "(k, v) \<in> set (mapOfBatch Y)" "isUnchanged (mapOfBatch X) (k, v)"
        unfolding unchangedIds_compare by auto
      from dY v(1) have "map_of (mapOfBatch Y) k = Some v" by simp
      moreover from v(2) have "\<exists>oe. map_of (mapOfBatch X) k = Some oe \<and> locatorCode oe = locatorCode v"
        by (cases "map_of (mapOfBatch X) k") (auto simp: isUnchanged_def)
      ultimately show "k \<in> {k. \<exists>oe ne. map_of (mapOfBatch X) k = Some oe \<and> map_of (mapOfBatch Y) k = Some ne
                       \<and> locatorCode oe = locatorCode ne}" by blast
    next
      fix k assume "k \<in> {k. \<exists>oe ne. map_of (mapOfBatch X) k = Some oe \<and> map_of (mapOfBatch Y) k = Some ne
                       \<and> locatorCode oe = locatorCode ne}"
      then obtain oe ne where a: "map_of (mapOfBatch X) k = Some oe" "map_of (mapOfBatch Y) k = Some ne"
          "locatorCode oe = locatorCode ne" by blast
      from a(1,3) have "isUnchanged (mapOfBatch X) (k, ne)" by (simp add: isUnchanged_def)
      then show "k \<in> set (unchangedIds (compare X Y))"
        unfolding unchangedIds_compare in_filter_keys[OF dY a(2)] .
    qed
  qed
  show "set (unchangedIds (compare A B)) = set (unchangedIds (compare B A))"
    unfolding idu by (intro set_eqI iffI; clarsimp; metis)
qed

text \<open>Witness for C10.\<close>

theorem compare_swap_witness:
  "added (compare oldBatch newBatch) = removed (compare newBatch oldBatch)
   \<and> removed (compare oldBatch newBatch) = added (compare newBatch oldBatch)
   \<and> set (modified (compare oldBatch newBatch))
       = (\<lambda>(x, y). (y, x)) ` set (modified (compare newBatch oldBatch))
   \<and> set (modifiedIds (compare oldBatch newBatch)) = set (modifiedIds (compare newBatch oldBatch))
   \<and> set (unchangedIds (compare oldBatch newBatch)) = set (unchangedIds (compare newBatch oldBatch))"
  by (rule compare_swap)

section \<open>Deduplication\<close>

lemma readNat_showNat: "readNat (showNat n) = n"
proof (induction n rule: showNat.induct)
  case (1 n)
  show ?case
  proof (cases "n < 10")
    case True
    then have "showNat n = [char_of (48 + n)]" by (subst showNat.simps) simp
    moreover from True have "(48 + n) mod 256 = 48 + n" by simp
    ultimately show ?thesis by (simp add: readNat_def)
  next
    case False
    then have s: "showNat n = showNat (n div 10) @ [char_of (48 + n mod 10)]"
      by (subst showNat.simps) simp
    have m: "(48 + n mod 10) mod 256 = 48 + n mod 10"
      by (rule mod_less) (simp add: less_le_trans[OF _ order_refl] add.commute trans_less_add2)
    from 1[OF False] have ih: "readNat (showNat (n div 10)) = n div 10" .
    have "readNat (showNat n) = 10 * readNat (showNat (n div 10)) + (of_char (char_of (48 + n mod 10) :: char) - 48)"
      unfolding s readNat_def by simp
    also have "\<dots> = 10 * (n div 10) + n mod 10" by (simp add: ih m)
    also have "\<dots> = n" by simp
    finally show ?thesis .
  qed
qed

lemma showNat_inj: "showNat a = showNat b \<Longrightarrow> a = b"
  by (metis readNat_showNat)

lemma candidate_inj: "inj (\<lambda>c. n @ showNat c)"
  by (rule injI) (simp add: showNat_inj)

lemma free_candidate_exists: "\<exists>c\<ge>c0. \<not> mapHas S (n @ showNat c)"
proof (rule ccontr)
  assume "\<not> (\<exists>c\<ge>c0. \<not> mapHas S (n @ showNat c))"
  then have "(\<lambda>c. n @ showNat c) ` {c0..} \<subseteq> set (map fst S)"
    by (auto simp: mapHas_def)
  then have "finite ((\<lambda>c. n @ showNat c) ` {c0..})" by (rule finite_subset) simp
  moreover have "inj_on (\<lambda>c. n @ showNat c) {c0..}"
    using candidate_inj by (rule inj_on_subset) simp
  ultimately have "finite {c0..}" by (rule finite_imageD)
  then show False by (simp add: infinite_Ici)
qed

lemma probeName_least:
  assumes "c0 \<le> c" and "\<not> mapHas S (n @ showNat c)"
    and "\<forall>j. c0 \<le> j \<and> j < c \<longrightarrow> mapHas S (n @ showNat j)"
  shows "probeName S n c0 = Some (n @ showNat c)"
  using assms
proof (induction "c - c0" arbitrary: c0)
  case 0
  then have "c0 = c" by simp
  with 0 show ?case by (subst probeName.simps) simp
next
  case (Suc d)
  then have lt: "c0 < c" by simp
  with Suc.prems have h: "mapHas S (n @ showNat c0)" by simp
  have "probeName S n (c0 + 1) = Some (n @ showNat c)"
  proof (rule Suc.hyps(1))
    show "d = c - (c0 + 1)" using Suc.hyps(2) by simp
    show "c0 + 1 \<le> c" using lt by simp
    show "\<not> mapHas S (n @ showNat c)" by (rule Suc.prems(2))
    show "\<forall>j. c0 + 1 \<le> j \<and> j < c \<longrightarrow> mapHas S (n @ showNat j)" using Suc.prems(3) by simp
  qed
  with h show ?case by (subst probeName.simps) simp
qed

lemma probeName_total:
  "\<exists>c\<ge>c0. probeName S n c0 = Some (n @ showNat c) \<and> \<not> mapHas S (n @ showNat c)
          \<and> (\<forall>j. c0 \<le> j \<and> j < c \<longrightarrow> mapHas S (n @ showNat j))"
proof -
  let ?P = "\<lambda>c. c0 \<le> c \<and> \<not> mapHas S (n @ showNat c)"
  from free_candidate_exists[of c0 S n] have ex: "\<exists>c. ?P c" by blast
  define c where "c = (LEAST c. ?P c)"
  from ex have p: "?P c" unfolding c_def by (rule LeastI_ex)
  have least: "\<And>j. ?P j \<Longrightarrow> c \<le> j" unfolding c_def by (rule Least_le)
  have below: "\<forall>j. c0 \<le> j \<and> j < c \<longrightarrow> mapHas S (n @ showNat j)"
  proof (intro allI impI)
    fix j assume j: "c0 \<le> j \<and> j < c"
    show "mapHas S (n @ showNat j)"
    proof (rule ccontr)
      assume "\<not> mapHas S (n @ showNat j)"
      with j have "c \<le> j" by (intro least) simp
      with j show False by simp
    qed
  qed
  from p below have "probeName S n c0 = Some (n @ showNat c)"
    by (intro probeName_least) simp_all
  with p below show ?thesis by blast
qed

lemma mapSet_fresh: "\<not> mapHas S k \<Longrightarrow> mapSet S k v = S @ [(k, v)]"
  by (induction S) (auto simp: mapHas_def)

lemma dedup_step:
  "\<exists>k. dedupLoop S (e # es) = dedupLoop (S @ [(k, e\<lparr>name := k\<rparr>)]) es
       \<and> k \<notin> set (map fst S) \<and> renameOK (set (map fst S)) (name e) k"
proof (cases "mapHas S (name e)")
  case False
  then have "dedupLoop S (e # es) = dedupLoop (S @ [(name e, e\<lparr>name := name e\<rparr>)]) es"
    by (simp add: mapSet_fresh)
  moreover from False have "name e \<notin> set (map fst S)" by (simp add: mapHas_def)
  ultimately show ?thesis unfolding renameOK_def by blast
next
  case True
  from probeName_total[of 2 S "name e"] obtain c where c: "2 \<le> c"
      "probeName S (name e) 2 = Some (name e @ showNat c)" "\<not> mapHas S (name e @ showNat c)"
      "\<forall>j. 2 \<le> j \<and> j < c \<longrightarrow> mapHas S (name e @ showNat j)" by blast
  from True c(2,3) have
    "dedupLoop S (e # es) = dedupLoop (S @ [(name e @ showNat c, e\<lparr>name := name e @ showNat c\<rparr>)]) es"
    by (simp add: mapSet_fresh)
  moreover from c(3) have "name e @ showNat c \<notin> set (map fst S)" by (simp add: mapHas_def)
  moreover from True c(1,4) have "renameOK (set (map fst S)) (name e) (name e @ showNat c)"
    unfolding renameOK_def mapHas_def by blast
  ultimately show ?thesis by blast
qed

lemma dedupLoop_spec:
  "distinct (map fst S) \<Longrightarrow>
   \<exists>R. dedupLoop S es = Some (S @ R) \<and> length R = length es \<and> distinct (map fst (S @ R)) \<and>
     (\<forall>i<length es. snd (R ! i) = (es ! i)\<lparr>name := fst (R ! i)\<rparr> \<and>
        renameOK (set (map fst S) \<union> set (map fst (take i R))) (name (es ! i)) (fst (R ! i)))"
proof (induction es arbitrary: S)
  case Nil
  then show ?case by simp
next
  case (Cons e es)
  from dedup_step[of S e es] obtain k where
    st: "dedupLoop S (e # es) = dedupLoop (S @ [(k, e\<lparr>name := k\<rparr>)]) es"
    and fr: "k \<notin> set (map fst S)" and ok: "renameOK (set (map fst S)) (name e) k" by blast
  let ?S' = "S @ [(k, e\<lparr>name := k\<rparr>)]"
  from Cons.prems fr have d': "distinct (map fst ?S')" by simp
  from Cons.IH[OF d'] obtain R' where
    r1: "dedupLoop ?S' es = Some (?S' @ R')" and r2: "length R' = length es"
    and r3: "distinct (map fst (?S' @ R'))"
    and r4: "\<forall>i<length es. snd (R' ! i) = (es ! i)\<lparr>name := fst (R' ! i)\<rparr> \<and>
        renameOK (set (map fst ?S') \<union> set (map fst (take i R'))) (name (es ! i)) (fst (R' ! i))"
    by blast
  let ?R = "(k, e\<lparr>name := k\<rparr>) # R'"
  have a1: "dedupLoop S (e # es) = Some (S @ ?R)" using st r1 by simp
  have a2: "length ?R = length (e # es)" using r2 by simp
  have a3: "distinct (map fst (S @ ?R))" using r3 by simp
  have a4: "\<forall>i<length (e # es). snd (?R ! i) = ((e # es) ! i)\<lparr>name := fst (?R ! i)\<rparr> \<and>
        renameOK (set (map fst S) \<union> set (map fst (take i ?R))) (name ((e # es) ! i)) (fst (?R ! i))"
  proof (intro allI impI)
    fix i assume i: "i < length (e # es)"
    show "snd (?R ! i) = ((e # es) ! i)\<lparr>name := fst (?R ! i)\<rparr> \<and>
        renameOK (set (map fst S) \<union> set (map fst (take i ?R))) (name ((e # es) ! i)) (fst (?R ! i))"
    proof (cases i)
      case 0
      with ok show ?thesis by simp
    next
      case (Suc j)
      with i have j: "j < length es" by simp
      have "set (map fst S) \<union> set (map fst (take (Suc j) ?R))
              = set (map fst ?S') \<union> set (map fst (take j R'))" by auto
      with r4[rule_format, OF j] Suc show ?thesis by simp
    qed
  qed
  from a1 a2 a3 a4 show ?case by blast
qed

text \<open>
  Counterexample to C4 as stated: the third element is the first one named
  \<open>submitButton2\<close>, yet it is renamed, because the second element has already been given
  that identifier.
\<close>

theorem deduplicateElements_first_occurrence_counterexample:
  "name (dupBatch ! 2) = ''submitButton2''
   \<and> ''submitButton2'' \<notin> set (map name (take 2 dupBatch))
   \<and> map_option (map name) (deduplicateElements dupBatch)
       = Some [''submitButton'', ''submitButton2'', ''submitButton22'']"
  by code_simp

text \<open>
  Claim C4, amended. For every input sequence, deduplication returns, and returns a sequence
  of the same length with pairwise distinct identifiers whose elements are those of the
  input, in order, changed in the name only. An element keeps its name when no identifier
  emitted before it equals that name (so the first element always does); otherwise it is
  renamed to name followed by the least counter from 2 on whose candidate is not among the
  identifiers emitted before it, already-suffixed ones included.
\<close>

theorem deduplicateElements_unique:
  "\<exists>out. deduplicateElements es = Some out \<and> length out = length es \<and> distinct (map name out) \<and>
     (\<forall>i<length es.
        out ! i = (es ! i)\<lparr>name := name (out ! i)\<rparr> \<and>
        (name (es ! i) \<notin> set (map name (take i out)) \<longrightarrow> name (out ! i) = name (es ! i)) \<and>
        (name (es ! i) \<in> set (map name (take i out)) \<longrightarrow>
           (\<exists>c\<ge>2. name (out ! i) = name (es ! i) @ showNat c \<and>
                  (\<forall>j. 2 \<le> j \<and> j < c \<longrightarrow> name (es ! i) @ showNat j \<in> set (map name (take i out))))))"
proof -
  from dedupLoop_spec[of "[]" es] obtain R where
    r1: "dedupLoop [] es = Some R" and r2: "length R = length es" and r3: "distinct (map fst R)"
    and r4: "\<forall>i<length es. snd (R ! i) = (es ! i)\<lparr>name := fst (R ! i)\<rparr> \<and>
        renameOK (set (map fst (take i R))) (name (es ! i)) (fst (R ! i))"
    by auto
  let ?out = "map snd R"
  have nm: "\<And>i. i < length R \<Longrightarrow> name (snd (R ! i)) = fst (R ! i)"
  proof -
    fix i assume "i < length R"
    with r2 r4 have "snd (R ! i) = (es ! i)\<lparr>name := fst (R ! i)\<rparr>" by simp
    then have "name (snd (R ! i)) = name ((es ! i)\<lparr>name := fst (R ! i)\<rparr>)" by simp
    then show "name (snd (R ! i)) = fst (R ! i)" by simp
  qed
  have names: "map name ?out = map fst R"
    by (rule nth_equalityI) (simp_all add: nm)
  have tk: "\<And>i. map name (take i ?out) = map fst (take i R)"
  proof -
    fix i
    have "map name (take i ?out) = take i (map name ?out)" by (simp add: take_map)
    also have "\<dots> = take i (map fst R)" by (simp only: names)
    also have "\<dots> = map fst (take i R)" by (simp add: take_map)
    finally show "map name (take i ?out) = map fst (take i R)" .
  qed
  have b1: "deduplicateElements es = Some ?out"
    by (simp add: deduplicateElements_def r1 mapValues_def)
  have b2: "length ?out = length es" using r2 by simp
  have b3: "distinct (map name ?out)" unfolding names by (rule r3)
  have b4: "\<forall>i<length es.
        ?out ! i = (es ! i)\<lparr>name := name (?out ! i)\<rparr> \<and>
        (name (es ! i) \<notin> set (map name (take i ?out)) \<longrightarrow> name (?out ! i) = name (es ! i)) \<and>
        (name (es ! i) \<in> set (map name (take i ?out)) \<longrightarrow>
           (\<exists>c\<ge>2. name (?out ! i) = name (es ! i) @ showNat c \<and>
                  (\<forall>j. 2 \<le> j \<and> j < c \<longrightarrow> name (es ! i) @ showNat j \<in> set (map name (take i ?out)))))"
  proof (intro allI impI)
    fix i assume i: "i < length es"
    with r2 have iR: "i < length R" by simp
    from r4 i have s: "snd (R ! i) = (es ! i)\<lparr>name := fst (R ! i)\<rparr>"
      and ok: "renameOK (set (map fst (take i R))) (name (es ! i)) (fst (R ! i))" by simp_all
    have o: "?out ! i = snd (R ! i)" using iR by simp
    have n: "name (?out ! i) = fst (R ! i)" using o nm[OF iR] by simp
    show "?out ! i = (es ! i)\<lparr>name := name (?out ! i)\<rparr> \<and>
        (name (es ! i) \<notin> set (map name (take i ?out)) \<longrightarrow> name (?out ! i) = name (es ! i)) \<and>
        (name (es ! i) \<in> set (map name (take i ?out)) \<longrightarrow>
           (\<exists>c\<ge>2. name (?out ! i) = name (es ! i) @ showNat c \<and>
                  (\<forall>j. 2 \<le> j \<and> j < c \<longrightarrow> name (es ! i) @ showNat j \<in> set (map name (take i ?out)))))"
      unfolding tk n using ok s o unfolding renameOK_def by simp
  qed
  from b1 b2 b3 b4 show ?thesis by blast
qed

text \<open>Witness for C4: the first element keeps its name, the second collides and gets counter 2.\<close>

theorem deduplicateElements_unique_witness:
  "\<exists>out. deduplicateElements dupBatch = Some out
     \<and> map name out = [''submitButton'', ''submitButton2'', ''submitButton22'']
     \<and> name (dupBatch ! 1) \<in> set (map name (take 1 out))
     \<and> (\<exists>c\<ge>2. name (out ! 1) = name (dupBatch ! 1) @ showNat c)
     \<and> name (dupBatch ! 0) \<notin> set (map name (take 0 out))
     \<and> name (out ! 0) = name (dupBatch ! 0)"
proof -
  from deduplicateElements_unique[of dupBatch] obtain out where
    o: "deduplicateElements dupBatch = Some out"
    and p: "\<forall>i<length dupBatch.
        out ! i = (dupBatch ! i)\<lparr>name := name (out ! i)\<rparr> \<and>
        (name (dupBatch ! i) \<notin> set (map name (take i out)) \<longrightarrow> name (out ! i) = name (dupBatch ! i)) \<and>
        (name (dupBatch ! i) \<in> set (map name (take i out)) \<longrightarrow>
           (\<exists>c\<ge>2. name (out ! i) = name (dupBatch ! i) @ showNat c \<and>
                  (\<forall>j. 2 \<le> j \<and> j < c \<longrightarrow> name (dupBatch ! i) @ showNat j \<in> set (map name (take i out)))))"
    by blast
  have v: "map_option (map name) (deduplicateElements dupBatch)
       = Some [''submitButton'', ''submitButton2'', ''submitButton22'']" by code_simp
  with o have n: "map name out = [''submitButton'', ''submitButton2'', ''submitButton22'']" by simp
  have l: "(1::nat) < length dupBatch" "(0::nat) < length dupBatch" by (simp_all add: dupBatch_def)
  have n1: "name (dupBatch ! 1) = ''submitButton''" "name (dupBatch ! 0) = ''submitButton''"
    by (simp_all add: dupBatch_def mkElement_def)
  have t1: "map name (take 1 out) = [''submitButton'']"
    using n by (simp add: take_map[symmetric])
  have h1: "name (dupBatch ! 1) \<in> set (map name (take 1 out))" by (simp only: n1 t1) simp
  have h0: "name (dupBatch ! 0) \<notin> set (map name (take 0 out))" by simp
  from p l(1) h1 have c1: "\<exists>c\<ge>2. name (out ! 1) = name (dupBatch ! 1) @ showNat c" by blast
  from p l(2) h0 have c0: "name (out ! 0) = name (dupBatch ! 0)" by blast
  show ?thesis by (rule exI[of _ out]) (intro conjI o n h1 c1 h0 c0)
qed

section \<open>Code synthesis\<close>






end
